theory Spec2Isabelle
  imports Main "HOL-Library.Multiset"
begin

section \<open>Values of the host language\<close>

text \<open>
  The comparators of \<^verbatim>\<open>app/page.tsx\<close> return JavaScript numbers. Every number the
  code computes is an integer, one of the two infinities or \<^verbatim>\<open>NaN\<close>; the model keeps
  exactly these. A non-null assertion on an absent value (\<^verbatim>\<open>a.deadline!\<close> read when
  \<^verbatim>\<open>a.deadline\<close> is \<^verbatim>\<open>undefined\<close>) makes the next field access throw; that is the
  one error of the model.
\<close>

datatype error = TypeError

datatype number = Num int | PosInf | NegInf | NaN

fun isFinite :: "number \<Rightarrow> bool" where
  "isFinite (Num _) = True"
| "isFinite _ = False"

subsection \<open>Integers held in doubles\<close>

text \<open>
  A number is a double. It holds every integer up to \<open>2 ^ 53\<close> in magnitude; a larger
  result of an operation on integers is rounded to the nearest double, which keeps the 53
  leading bits, a tie going to the even significand. \<open>excessBits n\<close> counts the low bits
  of \<open>n\<close> that do not fit (\<open>9007199254740992\<close> is \<open>2 ^ 53\<close>), and \<open>pow2 e\<close> is \<open>2 ^ e\<close>.
\<close>

function excessBits :: "int \<Rightarrow> nat" where
  "excessBits n = (if n < 9007199254740992 then 0 else Suc (excessBits (n div 2)))"
  by pat_completeness auto
termination
  by (relation "measure nat") auto

declare excessBits.simps [simp del]

fun pow2 :: "nat \<Rightarrow> int" where
  "pow2 0 = 1"
| "pow2 (Suc e) = 2 * pow2 e"

text \<open>The double nearest to an integer that is not negative, and to any integer.\<close>

definition roundMagnitude :: "int \<Rightarrow> int" where
  "roundMagnitude n =
     (let u = pow2 (excessBits n);
          q = n div u;
          r = n mod u
      in if u < 2 * r \<or> (2 * r = u \<and> odd q) then (q + 1) * u else q * u)"

definition toDouble :: "int \<Rightarrow> int" where
  "toDouble x = (if x < 0 then - roundMagnitude (- x) else roundMagnitude x)"

text \<open>The operator \<^verbatim>\<open>-\<close> on numbers.\<close>

fun num_sub :: "number \<Rightarrow> number \<Rightarrow> number" where
  "num_sub (Num x) (Num y) = Num (toDouble (x - y))"
| "num_sub NaN _ = NaN"
| "num_sub _ NaN = NaN"
| "num_sub PosInf PosInf = NaN"
| "num_sub NegInf NegInf = NaN"
| "num_sub PosInf _ = PosInf"
| "num_sub NegInf _ = NegInf"
| "num_sub (Num _) PosInf = NegInf"
| "num_sub (Num _) NegInf = PosInf"

text \<open>The operator \<^verbatim>\<open>!==\<close> on numbers: \<^verbatim>\<open>NaN\<close> differs from everything, itself included.\<close>

fun num_neq :: "number \<Rightarrow> number \<Rightarrow> bool" where
  "num_neq NaN _ = True"
| "num_neq _ NaN = True"
| "num_neq x y = (x \<noteq> y)"

text \<open>The operator \<^verbatim>\<open><\<close> on numbers.\<close>

fun num_less :: "number \<Rightarrow> number \<Rightarrow> bool" where
  "num_less (Num x) (Num y) = (x < y)"
| "num_less NaN _ = False"
| "num_less _ NaN = False"
| "num_less NegInf NegInf = False"
| "num_less NegInf _ = True"
| "num_less _ NegInf = False"
| "num_less PosInf _ = False"
| "num_less (Num _) PosInf = True"

text \<open>
  The product \<^verbatim>\<open>direction * v\<close>, where \<^verbatim>\<open>direction\<close> is \<open>1\<close> or \<open>- 1\<close>, and the
  negation of a number.
\<close>

fun num_times :: "int \<Rightarrow> number \<Rightarrow> number" where
  "num_times d (Num x) = Num (d * x)"
| "num_times d NaN = NaN"
| "num_times d PosInf = (if 0 < d then PosInf else if d < 0 then NegInf else NaN)"
| "num_times d NegInf = (if 0 < d then NegInf else if d < 0 then PosInf else NaN)"


text \<open>
  A \<^verbatim>\<open>Date\<close> holds a time value: an integral number of milliseconds since the epoch, or
  \<^verbatim>\<open>NaN\<close> for an Invalid Date (\<open>None\<close>). The reference instant \<^verbatim>\<open>now\<close> is always made
  by \<^verbatim>\<open>new Date()\<close>, so it is a plain \<open>int\<close> below.
\<close>

type_synonym Date = "int option"

fun getTime :: "Date \<Rightarrow> number" where
  "getTime (Some t) = Num t"
| "getTime None = NaN"

subsection \<open>Decimal rendering of numbers\<close>

fun digits :: "nat \<Rightarrow> string" where
  "digits n = (if n < 10 then [''0123456789'' ! n]
               else digits (n div 10) @ [''0123456789'' ! (n mod 10)])"

declare digits.simps [simp del]

text \<open>\<^verbatim>\<open>value.toString()\<close> and the \<^verbatim>\<open>${value}\<close> of a template, for an integral value.\<close>

definition toString :: "int \<Rightarrow> string" where
  "toString i = (if i < 0 then CHR ''-'' # digits (nat (- i)) else digits (nat i))"

text \<open>\<^verbatim>\<open>s.padStart(2, "0")\<close>.\<close>

definition padStart2 :: "string \<Rightarrow> string" where
  "padStart2 s = replicate (2 - length s) CHR ''0'' @ s"

definition pad :: "int \<Rightarrow> string" where
  "pad v = padStart2 (toString v)"

section \<open>Calendar arithmetic of the Date built-in\<close>

text \<open>
  The day number of the first day of a year, leap years, and the day number of a calendar
  day, as the language standard defines them (days since 1 January 1970, UTC).
\<close>

definition msPerDay :: int where
  "msPerDay = 86400000"

definition DayFromYear :: "int \<Rightarrow> int" where
  "DayFromYear y = 365 * (y - 1970) + (y - 1969) div 4 - (y - 1901) div 100 + (y - 1601) div 400"

definition InLeapYear :: "int \<Rightarrow> bool" where
  "InLeapYear y = ((y mod 4 = 0 \<and> y mod 100 \<noteq> 0) \<or> y mod 400 = 0)"

definition monthLengths :: "int \<Rightarrow> int list" where
  "monthLengths y = [31, if InLeapYear y then 29 else 28, 31, 30, 31, 30, 31, 31, 30, 31, 30, 31]"

text \<open>Months count from 1 here, as in the string the code builds.\<close>

definition MakeDay :: "int \<Rightarrow> nat \<Rightarrow> nat \<Rightarrow> int" where
  "MakeDay y m d = DayFromYear y + sum_list (take (m - 1) (monthLengths y)) + int d - 1"

text \<open>
  \<^verbatim>\<open>getUTCFullYear\<close>: the year \<open>y\<close> with \<open>DayFromYear y \<le> day < DayFromYear (y + 1)\<close>,
  found from the mean length of a year and one step of correction.
\<close>

definition YearFromDay :: "int \<Rightarrow> int" where
  "YearFromDay d =
     (let y = 1970 + (400 * d) div 146097
      in if d < DayFromYear y then y - 1
         else if DayFromYear (y + 1) \<le> d then y + 1
         else y)"

definition getUTCFullYear :: "int \<Rightarrow> int" where
  "getUTCFullYear t = YearFromDay (t div msPerDay)"

subsection \<open>Parsing the date-time string\<close>

definition digitVal :: "char \<Rightarrow> nat option" where
  "digitVal c = (let n = (of_char c :: nat) in if 48 \<le> n \<and> n \<le> 57 then Some (n - 48) else None)"

fun parseDigits :: "nat \<Rightarrow> string \<Rightarrow> nat option" where
  "parseDigits acc [] = Some acc"
| "parseDigits acc (c # cs) =
     (case digitVal c of None \<Rightarrow> None | Some v \<Rightarrow> parseDigits (10 * acc + v) cs)"

text \<open>A field of exactly \<open>n\<close> decimal digits.\<close>

definition parseField :: "nat \<Rightarrow> string \<Rightarrow> nat option" where
  "parseField n s = (if length s = n then parseDigits 0 s else None)"

text \<open>
  The UTC offset of the format, \<^verbatim>\<open>Z\<close> or \<^verbatim>\<open>+HH:mm\<close> or \<^verbatim>\<open>-HH:mm\<close>, in minutes east
  of UTC.
\<close>

definition parseOffset :: "string \<Rightarrow> int option" where
  "parseOffset s =
     (if s = ''Z'' then Some 0
      else if length s = 6 \<and> (s ! 0 = CHR ''+'' \<or> s ! 0 = CHR ''-'') \<and> s ! 3 = CHR '':'' then
        (case (parseField 2 (take 2 (drop 1 s)), parseField 2 (drop 4 s)) of
           (Some h, Some m) \<Rightarrow>
             if h \<le> 23 \<and> m \<le> 59
             then Some ((if s ! 0 = CHR ''-'' then - 1 else 1) * (60 * int h + int m))
             else None
         | _ \<Rightarrow> None)
      else None)"

text \<open>
  \<^verbatim>\<open>new Date(s)\<close> for a string \<open>s\<close> of the date-time format
  \<^verbatim>\<open>YYYY-MM-DDTHH:mm:ss\<close> followed by an offset. The result is \<open>None\<close> when \<open>s\<close> is not of
  this shape or names no calendar day or time of day; there the engines answer with an
  Invalid Date or with an instant of their own choosing, and the statements below that
  speak of resolved instants assume the string is of the format.
\<close>

definition parseDate :: "string \<Rightarrow> Date" where
  "parseDate s =
     (if 19 \<le> length s \<and> s ! 4 = CHR ''-'' \<and> s ! 7 = CHR ''-'' \<and> s ! 10 = CHR ''T''
         \<and> s ! 13 = CHR '':'' \<and> s ! 16 = CHR '':'' then
        (case (parseField 4 (take 4 s), parseField 2 (take 2 (drop 5 s)),
               parseField 2 (take 2 (drop 8 s)), parseField 2 (take 2 (drop 11 s)),
               parseField 2 (take 2 (drop 14 s)), parseField 2 (take 2 (drop 17 s)),
               parseOffset (drop 19 s)) of
           (Some y, Some mo, Some d, Some h, Some mi, Some sec, Some off) \<Rightarrow>
             if 1 \<le> mo \<and> mo \<le> 12 \<and> 1 \<le> d \<and> int d \<le> monthLengths (int y) ! (mo - 1)
                \<and> h \<le> 23 \<and> mi \<le> 59 \<and> sec \<le> 59
             then Some (MakeDay (int y) mo d * msPerDay
                        + (int h * 60 + int mi) * 60000 + int sec * 1000
                        - off * 60000)
             else None
         | _ \<Rightarrow> None)
      else None)"

section \<open>The catalogue\<close>

text \<open>
  The types \<^verbatim>\<open>Conference\<close> and \<^verbatim>\<open>RecurringDeadline\<close>, with the fields
  \<^verbatim>\<open>app/page.tsx\<close> reads. An optional field is an \<open>option\<close>; an absent \<^verbatim>\<open>isRolling\<close> is
  \<open>False\<close>, to which the code's \<^verbatim>\<open>!conf.isRolling\<close> makes it equal.
\<close>

record RecurringDeadline =
  month :: int
  day :: int
  hour :: int
  minute :: int
  offset :: string
  label :: string
  estimated :: bool

record Conference =
  ident :: string
  acronym :: string
  name :: string
  area :: "string option"
  deadline :: "RecurringDeadline option"
  isRolling :: bool
  location :: "string option"
  locationUrl :: "string option"
  note_text :: "string option"
  website :: string
  submissionLink :: "string option"

section \<open>Recurrence resolver and countdown formatter\<close>

definition buildDate :: "RecurringDeadline \<Rightarrow> int \<Rightarrow> Date" where
  "buildDate dl year =
     parseDate (toString year @ ''-'' @ pad (month dl) @ ''-'' @ pad (day dl)
                @ ''T'' @ pad (hour dl) @ '':'' @ pad (minute dl) @ '':00''
                @ offset dl)"

definition getNextOccurrence :: "RecurringDeadline \<Rightarrow> int \<Rightarrow> Date" where
  "getNextOccurrence dl pivot =
     (let baseYear = getUTCFullYear pivot;
          candidate = buildDate dl baseYear
      in case candidate of
           Some c \<Rightarrow> if c \<le> pivot then buildDate dl (baseYear + 1) else candidate
         | None \<Rightarrow> candidate)"

text \<open>
  With an Invalid Date as target every comparison is false and every quotient is
  \<^verbatim>\<open>NaN\<close>, so the last template is reached. The difference of the two time values is a
  double. Time values are at most \<open>8.64 * 10 ^ 15\<close> in magnitude, the difference stays
  below \<open>2 ^ 54\<close>, and on that range the quotients the code rounds to doubles before
  \<^verbatim>\<open>Math.floor\<close> have the floors of the exact quotients, which the model takes.
\<close>

definition formatCountdown :: "Date \<Rightarrow> int \<Rightarrow> string" where
  "formatCountdown target now =
     (case target of
        None \<Rightarrow> ''NaNm NaNs''
      | Some t \<Rightarrow>
          (let diff = toDouble (t - now) in
           if diff \<le> 0 then ''Closed''
           else
             (let totalSeconds = diff div 1000;
                  days = totalSeconds div (24 * 60 * 60);
                  hours = (totalSeconds mod (24 * 60 * 60)) div (60 * 60);
                  minutes = (totalSeconds mod (60 * 60)) div 60;
                  seconds = totalSeconds mod 60
              in if days > 0 then
                   toString days @ ''d '' @ toString hours @ ''h '' @ toString minutes @ ''m''
                 else if hours > 0 then
                   toString hours @ ''h '' @ toString minutes @ ''m '' @ toString seconds @ ''s''
                 else toString minutes @ ''m '' @ toString seconds @ ''s'')))"

text \<open>
  The countdown cell of a table row (\<^verbatim>\<open>renderRow\<close>): \<^verbatim>\<open>nextDeadline\<close> is \<^verbatim>\<open>null\<close> for a
  rolling entry and for one without a deadline; \<^verbatim>\<open>countdown\<close> is \<^verbatim>\<open>null\<close> unless the
  resolved instant is later than \<^verbatim>\<open>now\<close>.
\<close>

definition renderRow_countdown :: "Conference \<Rightarrow> int \<Rightarrow> string" where
  "renderRow_countdown conf now =
     (let nextDeadline =
            (case deadline conf of
               Some dl \<Rightarrow> if \<not> isRolling conf then Some (getNextOccurrence dl now) else None
             | None \<Rightarrow> None);
          countdown =
            (case nextDeadline of
               Some nd \<Rightarrow>
                 if num_less (Num now) (getTime nd) then Some (formatCountdown nd now) else None
             | None \<Rightarrow> None)
      in if isRolling conf then ''Always open''
         else (case countdown of Some c \<Rightarrow> c | None \<Rightarrow> ''Closed''))"

section \<open>Comparator engine\<close>

datatype SortKey = Default | Area | Acronym | Deadline | Countdown | Location

datatype SortDirection = Asc | Desc

record SortState =
  key :: SortKey
  direction :: SortDirection

datatype ViewMode = Combined | Sectioned

text \<open>
  Two things the comparators use are not part of \<^verbatim>\<open>app/page.tsx\<close>. The collation behind
  \<^verbatim>\<open>String.prototype.localeCompare\<close> belongs to the host; it is the parameter \<open>lc\<close> of
  every function that compares strings, with an integer result (negative, zero or
  positive). The sequence \<^verbatim>\<open>areaOrder\<close> and the catalogue \<^verbatim>\<open>conferences\<close> are imported
  from \<^verbatim>\<open>data/conferences\<close>; they are parameters too.
\<close>

definition DEFAULT_AREA_ORDER :: "string list" where
  "DEFAULT_AREA_ORDER = [''Other Conferences'']"

subsection \<open>Plain objects used as dictionaries\<close>

text \<open>
  \<^verbatim>\<open>areaPriority\<close>, \<^verbatim>\<open>grouped\<close> and \<^verbatim>\<open>clone\<close> are objects made by \<^verbatim>\<open>{}\<close>, so they
  inherit from \<^verbatim>\<open>Object.prototype\<close>. Reading \<^verbatim>\<open>obj[key]\<close> finds an own property, or else
  the inherited member when \<open>key\<close> names one, or else \<^verbatim>\<open>undefined\<close>. Writing
  \<^verbatim>\<open>obj[key] = v\<close> makes an own property, except for the accessor \<^verbatim>\<open>__proto__\<close>, whose
  setter makes none: it ignores the number that \<^verbatim>\<open>areaPriority\<close> writes, and the two
  other objects are never written under this key. The inherited members are functions,
  and \<^verbatim>\<open>__proto__\<close> reads as the prototype object itself; an inherited member is named
  here by its key.
\<close>

definition objectPrototypeKeys :: "string list" where
  "objectPrototypeKeys =
     [''constructor'', ''__defineGetter__'', ''__defineSetter__'', ''hasOwnProperty'',
      ''__lookupGetter__'', ''__lookupSetter__'', ''isPrototypeOf'', ''propertyIsEnumerable'',
      ''toString'', ''valueOf'', ''__proto__'', ''toLocaleString'']"

datatype 'v property = Own 'v | Inherited string | Undefined

definition getProperty :: "(string \<rightharpoonup> 'v) \<Rightarrow> string \<Rightarrow> 'v property" where
  "getProperty own k =
     (if k = ''__proto__'' then Inherited k
      else (case own k of
              Some v \<Rightarrow> Own v
            | None \<Rightarrow> if k \<in> set objectPrototypeKeys then Inherited k else Undefined))"

definition setProperty :: "(string \<rightharpoonup> 'v) \<Rightarrow> string \<Rightarrow> 'v \<Rightarrow> (string \<rightharpoonup> 'v)" where
  "setProperty own k v = (if k = ''__proto__'' then own else own(k \<mapsto> v))"

text \<open>
  The \<^verbatim>\<open>length\<close> of an inherited member: the number of parameters of the function, and
  nothing (\<open>0\<close> here, falsy as \<^verbatim>\<open>undefined\<close> is) for the prototype object.
\<close>

definition inheritedLength :: "string \<Rightarrow> nat" where
  "inheritedLength k =
     (if k \<in> set [''__defineGetter__'', ''__defineSetter__''] then 2
      else if k \<in> set [''constructor'', ''hasOwnProperty'', ''__lookupGetter__'',
                        ''__lookupSetter__'', ''isPrototypeOf'', ''propertyIsEnumerable'']
      then 1
      else 0)"

text \<open>
  \<^verbatim>\<open>areaPriority\<close>: the reduction writes \<^verbatim>\<open>acc[area] = index\<close> from left to right, so
  a label that occurs twice keeps its last index.
\<close>

definition areaPriority :: "string list \<Rightarrow> (string \<rightharpoonup> nat)" where
  "areaPriority areaOrder =
     (let labels = areaOrder @ DEFAULT_AREA_ORDER
      in fold (\<lambda>(ar, index) acc. setProperty acc ar index)
           (zip labels [0..<length labels]) Map.empty)"

definition areaLabelFor :: "Conference \<Rightarrow> string" where
  "areaLabelFor conf = (case area conf of Some ar \<Rightarrow> ar | None \<Rightarrow> DEFAULT_AREA_ORDER ! 0)"

text \<open>
  The local function \<^verbatim>\<open>rank\<close> of \<^verbatim>\<open>compareAreaLabels\<close>; the empty string is falsy, and
  \<^verbatim>\<open>??\<close> replaces \<^verbatim>\<open>undefined\<close> only, so an inherited member is returned as it is.
\<close>

datatype rankValue = RankNumber int | RankObject string

definition rank :: "string list \<Rightarrow> string option \<Rightarrow> rankValue" where
  "rank areaOrder lbl =
     (case lbl of
        None \<Rightarrow> RankNumber (int (length areaOrder) + 1)
      | Some l \<Rightarrow>
          if l = [] then RankNumber (int (length areaOrder) + 1)
          else (case getProperty (areaPriority areaOrder) l of
                  Own index \<Rightarrow> RankNumber (int index)
                | Inherited k \<Rightarrow> RankObject k
                | Undefined \<Rightarrow> RankNumber (int (length areaOrder) + 1)))"

definition orEmpty :: "string option \<Rightarrow> string" where
  "orEmpty s = (case s of Some v \<Rightarrow> v | None \<Rightarrow> [])"

text \<open>
  Two ranks differ under \<^verbatim>\<open>!==\<close> unless they are the same number or the same inherited
  member; a difference with a member that is not a number is \<^verbatim>\<open>NaN\<close>.
\<close>

definition compareAreaLabels ::
  "(string \<Rightarrow> string \<Rightarrow> int) \<Rightarrow> string list \<Rightarrow> string option \<Rightarrow> string option \<Rightarrow> number" where
  "compareAreaLabels lc areaOrder a b =
     (let rankA = rank areaOrder a;
          rankB = rank areaOrder b
      in if rankA \<noteq> rankB then
           (case (rankA, rankB) of
              (RankNumber x, RankNumber y) \<Rightarrow> Num (x - y)
            | _ \<Rightarrow> NaN)
         else Num (lc (orEmpty a) (orEmpty b)))"

definition defaultCompare ::
  "(string \<Rightarrow> string \<Rightarrow> int) \<Rightarrow> Conference \<Rightarrow> Conference \<Rightarrow> int \<Rightarrow> error + number" where
  "defaultCompare lc a b now =
     (let aHasDeadline = (deadline a \<noteq> None \<and> \<not> isRolling a);
          bHasDeadline = (deadline b \<noteq> None \<and> \<not> isRolling b)
      in if aHasDeadline \<and> bHasDeadline then
           (case (deadline a, deadline b) of
              (Some da, Some db) \<Rightarrow>
                (let nextA = getNextOccurrence da now;
                     nextB = getNextOccurrence db now
                 in if num_neq (getTime nextA) (getTime nextB)
                    then Inr (num_sub (getTime nextA) (getTime nextB))
                    else Inr (Num (lc (acronym a) (acronym b))))
            | _ \<Rightarrow> Inl TypeError)
         else if aHasDeadline then Inr (Num (- 1))
         else if bHasDeadline then Inr (Num 1)
         else Inr (Num (lc (acronym a) (acronym b))))"

text \<open>
  The branch that the cases \<^verbatim>\<open>"deadline"\<close> and \<^verbatim>\<open>"countdown"\<close> of the switch share;
  \<open>dir\<close> is the local \<^verbatim>\<open>direction\<close>, \<open>1\<close> or \<open>- 1\<close>.
\<close>

definition deadlineValue :: "Conference \<Rightarrow> int \<Rightarrow> number" where
  "deadlineValue c now =
     (case deadline c of
        Some dl \<Rightarrow> if \<not> isRolling c then getTime (getNextOccurrence dl now) else PosInf
      | None \<Rightarrow> PosInf)"

definition compareByDeadline ::
  "(string \<Rightarrow> string \<Rightarrow> int) \<Rightarrow> int \<Rightarrow> Conference \<Rightarrow> Conference \<Rightarrow> int \<Rightarrow> int" where
  "compareByDeadline lc dir a b now =
     (let valueA = deadlineValue a now;
          valueB = deadlineValue b now;
          aFinite = isFinite valueA;
          bFinite = isFinite valueB
      in if aFinite \<and> bFinite then
           (if \<not> num_neq valueA valueB then dir * lc (acronym a) (acronym b)
            else dir * (if num_less valueA valueB then - 1 else 1))
         else if aFinite \<and> \<not> bFinite then dir * - 1
         else if \<not> aFinite \<and> bFinite then dir * 1
         else dir * lc (acronym a) (acronym b))"

definition compareConferences ::
  "(string \<Rightarrow> string \<Rightarrow> int) \<Rightarrow> string list \<Rightarrow> Conference \<Rightarrow> Conference \<Rightarrow> SortState \<Rightarrow> int
     \<Rightarrow> error + number" where
  "compareConferences lc areaOrder a b srt now =
     (if key srt = Default then defaultCompare lc a b now
      else
        (let dir = (if direction srt = Asc then 1 else - 1) in
         case key srt of
           Area \<Rightarrow>
             (let areaCompare =
                    compareAreaLabels lc areaOrder (Some (areaLabelFor a)) (Some (areaLabelFor b))
              in if num_neq areaCompare (Num 0) then Inr (num_times dir areaCompare)
                 else Inr (Num (dir * lc (acronym a) (acronym b))))
         | Acronym \<Rightarrow> Inr (Num (dir * lc (acronym a) (acronym b)))
         | Location \<Rightarrow>
             (let byLocation = lc (orEmpty (location a)) (orEmpty (location b));
                  result = (if byLocation \<noteq> 0 then byLocation else lc (acronym a) (acronym b))
              in Inr (Num (dir * result)))
         | Deadline \<Rightarrow> Inr (Num (compareByDeadline lc dir a b now))
         | Countdown \<Rightarrow> Inr (Num (compareByDeadline lc dir a b now))
         | Default \<Rightarrow> defaultCompare lc a b now))"

section \<open>View projector\<close>

subsection \<open>Sorting with a comparator\<close>

text \<open>
  \<^verbatim>\<open>Array.prototype.sort\<close> with a comparator: the sort is stable, an element \<open>y\<close> moves in
  front of \<open>x\<close> only when the comparator answers \<open>x\<close>, \<open>y\<close> with a number above zero
  (\<^verbatim>\<open>NaN\<close> counts as zero), and an exception of the comparator ends the sort. For a
  comparator that is a consistent ordering this fixes the result; it is computed here by
  insertion.
\<close>

fun insertBy :: "('a \<Rightarrow> 'a \<Rightarrow> error + number) \<Rightarrow> 'a \<Rightarrow> 'a list \<Rightarrow> error + 'a list" where
  "insertBy cmp x [] = Inr [x]"
| "insertBy cmp x (y # ys) =
     (case cmp x y of
        Inl e \<Rightarrow> Inl e
      | Inr v \<Rightarrow>
          if num_less (Num 0) v then
            (case insertBy cmp x ys of Inl e \<Rightarrow> Inl e | Inr zs \<Rightarrow> Inr (y # zs))
          else Inr (x # y # ys))"

fun sortBy :: "('a \<Rightarrow> 'a \<Rightarrow> error + number) \<Rightarrow> 'a list \<Rightarrow> error + 'a list" where
  "sortBy cmp [] = Inr []"
| "sortBy cmp (x # xs) =
     (case sortBy cmp xs of Inl e \<Rightarrow> Inl e | Inr ys \<Rightarrow> insertBy cmp x ys)"

text \<open>\<^verbatim>\<open>Array.prototype.map\<close> with a callback that may throw.\<close>

fun mapE :: "('a \<Rightarrow> error + 'b) \<Rightarrow> 'a list \<Rightarrow> error + 'b list" where
  "mapE f [] = Inr []"
| "mapE f (x # xs) =
     (case f x of
        Inl e \<Rightarrow> Inl e
      | Inr y \<Rightarrow> (case mapE f xs of Inl e \<Rightarrow> Inl e | Inr ys \<Rightarrow> Inr (y # ys)))"

subsection \<open>Grouping by area\<close>

text \<open>
  \<^verbatim>\<open>Grouped\<close> is an object keyed by area label. The association list holds its own
  properties in the order of their creation; a key is never created twice.
\<close>

type_synonym Grouped = "(string \<times> Conference list) list"

definition lookupGroup :: "Grouped \<Rightarrow> string \<Rightarrow> Conference list property" where
  "lookupGroup g ar = getProperty (map_of g) ar"

text \<open>
  One step of the reduction. \<^verbatim>\<open>acc[key]\<close> is falsy only when it is \<^verbatim>\<open>undefined\<close>, and
  then the empty array is stored; an inherited member has no \<^verbatim>\<open>push\<close>, and calling it
  throws.
\<close>

definition pushGrouped :: "Conference \<Rightarrow> Grouped \<Rightarrow> error + Grouped" where
  "pushGrouped conf acc =
     (let k = areaLabelFor conf
      in case lookupGroup acc k of
           Undefined \<Rightarrow> Inr (acc @ [(k, [conf])])
         | Own _ \<Rightarrow> Inr (map (\<lambda>(k', es). if k' = k then (k', es @ [conf]) else (k', es)) acc)
         | Inherited _ \<Rightarrow> Inl TypeError)"

fun groupedFrom :: "Conference list \<Rightarrow> Grouped \<Rightarrow> error + Grouped" where
  "groupedFrom [] acc = Inr acc"
| "groupedFrom (conf # rest) acc =
     (case pushGrouped conf acc of Inl e \<Rightarrow> Inl e | Inr acc' \<Rightarrow> groupedFrom rest acc')"

definition grouped :: "Conference list \<Rightarrow> error + Grouped" where
  "grouped conferences = groupedFrom conferences []"

text \<open>
  \<^verbatim>\<open>Object.keys\<close>: the keys that are array indices (canonical decimal numerals below
  \<open>2 ^ 32 - 1\<close>) come first, in ascending numeric order, then the other keys in the order
  of their creation.
\<close>

definition isArrayIndex :: "string \<Rightarrow> bool" where
  "isArrayIndex s =
     (case s of
        [] \<Rightarrow> False
      | c # cs \<Rightarrow>
          (c \<noteq> CHR ''0'' \<or> cs = []) \<and>
          (case parseDigits 0 s of Some v \<Rightarrow> int v < 4294967295 | None \<Rightarrow> False))"

definition indexValue :: "string \<Rightarrow> int" where
  "indexValue s = (case parseDigits 0 s of Some v \<Rightarrow> int v | None \<Rightarrow> 0)"

definition objectKeys :: "Grouped \<Rightarrow> string list" where
  "objectKeys g =
     sort_key indexValue (filter isArrayIndex (map fst g))
       @ filter (\<lambda>k. \<not> isArrayIndex k) (map fst g)"

text \<open>
  \<^verbatim>\<open>grouped[area]?.length\<close> is truthy for an own array that is not empty and for an
  inherited function with parameters.
\<close>

definition resolveAreaOrder :: "string list \<Rightarrow> Grouped \<Rightarrow> string list" where
  "resolveAreaOrder areaOrder g =
     (let extraAreas = filter (\<lambda>ar. ar \<notin> set areaOrder) (objectKeys g)
      in filter (\<lambda>ar. case lookupGroup g ar of
                        Own es \<Rightarrow> length es \<noteq> 0
                      | Inherited k \<Rightarrow> inheritedLength k \<noteq> 0
                      | Undefined \<Rightarrow> False)
           (areaOrder @ extraAreas @ DEFAULT_AREA_ORDER))"

definition areaKeys :: "string list \<Rightarrow> Conference list \<Rightarrow> error + string list" where
  "areaKeys areaOrder conferences =
     (case grouped conferences of
        Inl e \<Rightarrow> Inl e
      | Inr g \<Rightarrow> Inr (resolveAreaOrder areaOrder g))"

text \<open>
  The loop of \<^verbatim>\<open>sortedByArea\<close>, writing \<^verbatim>\<open>clone[area]\<close> for each key in turn. Spreading
  \<^verbatim>\<open>grouped[area] ?? []\<close> throws when the value is an inherited function, which is not
  iterable. The key \<^verbatim>\<open>__proto__\<close> never comes here: its \<^verbatim>\<open>length\<close> is \<^verbatim>\<open>undefined\<close> and
  \<^verbatim>\<open>resolveAreaOrder\<close> drops it.
\<close>

fun sortGroups ::
  "(Conference \<Rightarrow> Conference \<Rightarrow> error + number) \<Rightarrow> Grouped \<Rightarrow> string list
     \<Rightarrow> (string \<rightharpoonup> Conference list) \<Rightarrow> error + (string \<rightharpoonup> Conference list)" where
  "sortGroups cmp g [] clone = Inr clone"
| "sortGroups cmp g (ar # rest) clone =
     (case lookupGroup g ar of
        Inherited _ \<Rightarrow> Inl TypeError
      | Undefined \<Rightarrow>
          (case sortBy cmp [] of
             Inl e \<Rightarrow> Inl e
           | Inr sorted_entries \<Rightarrow> sortGroups cmp g rest (setProperty clone ar sorted_entries))
      | Own entries \<Rightarrow>
          (case sortBy cmp entries of
             Inl e \<Rightarrow> Inl e
           | Inr sorted_entries \<Rightarrow> sortGroups cmp g rest (setProperty clone ar sorted_entries)))"

definition sortedByArea ::
  "(string \<Rightarrow> string \<Rightarrow> int) \<Rightarrow> string list \<Rightarrow> Conference list \<Rightarrow> SortState \<Rightarrow> int
     \<Rightarrow> error + (string \<rightharpoonup> Conference list)" where
  "sortedByArea lc areaOrder conferences srt now =
     (case grouped conferences of
        Inl e \<Rightarrow> Inl e
      | Inr g \<Rightarrow>
          sortGroups (\<lambda>a b. compareConferences lc areaOrder a b srt now) g
            (resolveAreaOrder areaOrder g) Map.empty)"

text \<open>
  The sectioned view: one section for each element of \<^verbatim>\<open>areaKeys\<close>, in that order,
  holding the rows of \<^verbatim>\<open>sortedByArea[area]\<close>; \<^verbatim>\<open>?.map\<close> skips \<^verbatim>\<open>undefined\<close> only.
\<close>

definition sectioned ::
  "(string \<Rightarrow> string \<Rightarrow> int) \<Rightarrow> string list \<Rightarrow> Conference list \<Rightarrow> SortState \<Rightarrow> int
     \<Rightarrow> error + (string \<times> Conference list) list" where
  "sectioned lc areaOrder conferences srt now =
     (case areaKeys areaOrder conferences of
        Inl e \<Rightarrow> Inl e
      | Inr keys \<Rightarrow>
          (case sortedByArea lc areaOrder conferences srt now of
             Inl e \<Rightarrow> Inl e
           | Inr clone \<Rightarrow>
               mapE (\<lambda>ar. case getProperty clone ar of
                             Own es \<Rightarrow> Inr (ar, es)
                           | Undefined \<Rightarrow> Inr (ar, [])
                           | Inherited _ \<Rightarrow> Inl TypeError)
                    keys))"

definition combinedRows ::
  "(string \<Rightarrow> string \<Rightarrow> int) \<Rightarrow> string list \<Rightarrow> Conference list \<Rightarrow> SortState \<Rightarrow> int
     \<Rightarrow> error + (Conference \<times> string) list" where
  "combinedRows lc areaOrder conferences srt now =
     sortBy (\<lambda>a b. compareConferences lc areaOrder (fst a) (fst b) srt now)
       (map (\<lambda>conf. (conf, areaLabelFor conf)) conferences)"

subsection \<open>The upcoming projection\<close>

definition upcoming :: "Conference list \<Rightarrow> int \<Rightarrow> error + (Conference \<times> Date) list" where
  "upcoming conferences now =
     (case mapE (\<lambda>conf. case deadline conf of
                          Some dl \<Rightarrow> Inr (conf, getNextOccurrence dl now)
                        | None \<Rightarrow> Inl TypeError)
             (filter (\<lambda>conf. deadline conf \<noteq> None \<and> \<not> isRolling conf) conferences) of
        Inl e \<Rightarrow> Inl e
      | Inr dated \<Rightarrow>
          (case sortBy (\<lambda>a b. Inr (num_sub (getTime (snd a)) (getTime (snd b)))) dated of
             Inl e \<Rightarrow> Inl e
           | Inr sorted_dated \<Rightarrow> Inr (take 4 sorted_dated)))"

subsection \<open>The page\<close>

text \<open>
  The state of the component \<^verbatim>\<open>Home\<close> and what one rendering shows of the catalogue:
  the list under "Next up" and, by view mode, the combined table or the sections. Every
  memoised value is computed on each rendering, whichever view is shown.
\<close>

record HomeState =
  st_now :: int
  st_viewMode :: ViewMode
  st_sort :: SortState

datatype MainContent =
  CombinedTable "(Conference \<times> string) list"
| AreaSections "(string \<times> Conference list) list"

record Page =
  nextUp :: "(Conference \<times> Date) list"
  content :: MainContent

definition Home ::
  "(string \<Rightarrow> string \<Rightarrow> int) \<Rightarrow> string list \<Rightarrow> Conference list \<Rightarrow> HomeState \<Rightarrow> error + Page" where
  "Home lc areaOrder conferences st =
     (case sectioned lc areaOrder conferences (st_sort st) (st_now st) of
        Inl e \<Rightarrow> Inl e
      | Inr sections \<Rightarrow>
          (case combinedRows lc areaOrder conferences (st_sort st) (st_now st) of
             Inl e \<Rightarrow> Inl e
           | Inr rows \<Rightarrow>
               (case upcoming conferences (st_now st) of
                  Inl e \<Rightarrow> Inl e
                | Inr up \<Rightarrow>
                    Inr \<lparr>nextUp = up,
                         content = (if st_viewMode st = Combined then CombinedTable rows
                                    else AreaSections sections)\<rparr>)))"

section \<open>Well-formed entries\<close>

text \<open>
  An entry has a usable deadline when it is not rolling and carries a deadline; its
  resolved instant is what the resolver answers for it. A label is plain when it names no
  member of \<^verbatim>\<open>Object.prototype\<close>. An entry is well formed at \<open>now\<close> when its resolved area
  label is plain and its deadline, if it is used, resolves at \<open>now\<close> to an instant: the
  strings the resolver builds are date-times of the format.

  A deadline is valid in a year when the string built for that year is of the format, and
  valid at \<open>now\<close> when it is valid in the year of \<open>now\<close> and in the next year, the two
  years the resolver may build.
\<close>

definition hasUsableDeadline :: "Conference \<Rightarrow> bool" where
  "hasUsableDeadline c = (deadline c \<noteq> None \<and> \<not> isRolling c)"

definition resolvedInstant :: "Conference \<Rightarrow> int \<Rightarrow> Date" where
  "resolvedInstant c now =
     (case deadline c of
        Some dl \<Rightarrow> if isRolling c then None else getNextOccurrence dl now
      | None \<Rightarrow> None)"

definition plainLabel :: "string \<Rightarrow> bool" where
  "plainLabel l = (l \<notin> set objectPrototypeKeys)"

definition wellFormed :: "Conference \<Rightarrow> int \<Rightarrow> bool" where
  "wellFormed c now =
     (plainLabel (areaLabelFor c) \<and> (\<not> hasUsableDeadline c \<or> resolvedInstant c now \<noteq> None))"

definition validIn :: "RecurringDeadline \<Rightarrow> int \<Rightarrow> bool" where
  "validIn dl year = (buildDate dl year \<noteq> None)"

definition validAt :: "RecurringDeadline \<Rightarrow> int \<Rightarrow> bool" where
  "validAt dl now = (validIn dl (getUTCFullYear now) \<and> validIn dl (getUTCFullYear now + 1))"

text \<open>
  What the reduction has built after the entries \<open>xs\<close>: one key for each resolved label
  seen, holding the entries of that label in catalogue order.
\<close>

definition groupedOf :: "Grouped \<Rightarrow> Conference list \<Rightarrow> bool" where
  "groupedOf acc xs \<longleftrightarrow>
     distinct (map fst acc) \<and>
     (\<forall>q. map_of acc q =
        (if q \<in> areaLabelFor ` set xs then Some (filter (\<lambda>c. areaLabelFor c = q) xs)
         else None))"

section \<open>Sample data\<close>

text \<open>
  A collation to evaluate the comparators with: strings compared by their first differing
  character, a proper prefix first. Uppercase ASCII acronyms order the same way under the
  collations of hosts.
\<close>

fun ordinalCompare :: "string \<Rightarrow> string \<Rightarrow> int" where
  "ordinalCompare [] [] = 0"
| "ordinalCompare [] (y # ys) = - 1"
| "ordinalCompare (x # xs) [] = 1"
| "ordinalCompare (x # xs) (y # ys) =
     (if (of_char x :: nat) < of_char y then - 1
      else if (of_char y :: nat) < of_char x then 1
      else ordinalCompare xs ys)"

definition sampleDeadline :: "int \<Rightarrow> int \<Rightarrow> string \<Rightarrow> RecurringDeadline" where
  "sampleDeadline m d off =
     \<lparr>month = m, day = d, hour = 0, minute = 0, offset = off, label = ''deadline'',
      estimated = False\<rparr>"

definition sampleConf ::
  "string \<Rightarrow> string option \<Rightarrow> RecurringDeadline option \<Rightarrow> bool \<Rightarrow> Conference" where
  "sampleConf acr ar dl rolling =
     \<lparr>ident = acr, acronym = acr, name = acr, area = ar, deadline = dl, isRolling = rolling,
      location = None, locationUrl = None, note_text = None, website = ''https://example.org'',
      submissionLink = None\<rparr>"

section \<open>Integers held in doubles\<close>

lemma pow2_positive: "0 < pow2 e"
  by (induction e) simp_all

lemma pow2_excessBits_le: "1 \<le> n \<Longrightarrow> pow2 (excessBits n) \<le> n"
proof (induction n rule: excessBits.induct)
  case (1 n)
  show ?case
  proof (cases "n < 9007199254740992")
    case True
    then show ?thesis using "1.prems" by (simp add: excessBits.simps [of n])
  next
    case False
    then have "1 \<le> n div 2" by simp
    with "1.IH" False have "pow2 (excessBits (n div 2)) \<le> n div 2" by simp
    then have "2 * pow2 (excessBits (n div 2)) \<le> 2 * (n div 2)" by simp
    also have "\<dots> \<le> n" by simp
    finally show ?thesis using False by (simp add: excessBits.simps [of n])
  qed
qed

lemma roundMagnitude_exact: "n < 9007199254740992 \<Longrightarrow> roundMagnitude n = n"
  by (simp add: roundMagnitude_def excessBits.simps [of n])

lemma roundMagnitude_positive:
  assumes "1 \<le> n"
  shows "0 < roundMagnitude n"
proof -
  define u where "u = pow2 (excessBits n)"
  have u: "0 < u" "u \<le> n"
    using pow2_positive pow2_excessBits_le [OF assms] by (simp_all add: u_def)
  have "0 < n div u"
    using u pos_imp_zdiv_pos_iff [of u n] by blast
  then have "0 < n div u * u" and "0 < (n div u + 1) * u"
    using u(1) by simp_all
  then show ?thesis
    by (simp add: roundMagnitude_def Let_def u_def)
qed

text \<open>Up to \<open>2 ^ 53\<close> in magnitude an integer is its own double.\<close>

lemma toDouble_exact:
  assumes "\<bar>x\<bar> \<le> 9007199254740992"
  shows "toDouble x = x"
proof -
  have top: "roundMagnitude 9007199254740992 = 9007199254740992"
    by (simp add: roundMagnitude_def excessBits.simps)
  have "roundMagnitude n = n" if "0 \<le> n" and "n \<le> 9007199254740992" for n
  proof (cases "n = 9007199254740992")
    case True
    then show ?thesis by (simp only: top)
  next
    case False
    with that have "n < 9007199254740992" by simp
    then show ?thesis by (rule roundMagnitude_exact)
  qed
  from this [of x] this [of "- x"] assms show ?thesis
    by (simp add: toDouble_def abs_le_iff)
qed

text \<open>Rounding keeps the sign.\<close>

lemma toDouble_nonpositive_iff: "toDouble x \<le> 0 \<longleftrightarrow> x \<le> 0"
proof (cases "x < 0")
  case True
  then have "0 < roundMagnitude (- x)" by (intro roundMagnitude_positive) simp
  then show ?thesis using True by (simp add: toDouble_def)
next
  case False
  show ?thesis
  proof (cases "x = 0")
    case True
    then show ?thesis by (simp add: toDouble_def roundMagnitude_exact)
  next
    case nz: False
    with False have "0 < roundMagnitude x" by (intro roundMagnitude_positive) simp
    then show ?thesis using False nz by (simp add: toDouble_def)
  qed
qed

section \<open>The recurrence resolver\<close>

lemma getNextOccurrence_candidate:
  assumes "buildDate dl (getUTCFullYear pivot) = Some c"
  shows "getNextOccurrence dl pivot =
           (if pivot < c then Some c else buildDate dl (getUTCFullYear pivot + 1))"
  using assms by (simp add: getNextOccurrence_def Let_def not_less)

lemma getNextOccurrence_invalid:
  assumes "buildDate dl (getUTCFullYear pivot) = None"
  shows "getNextOccurrence dl pivot = None"
  using assms by (simp add: getNextOccurrence_def Let_def)

lemma validAt_resolves:
  assumes "validAt dl now"
  shows "\<exists>t. getNextOccurrence dl now = Some t"
proof -
  from assms obtain c c' where c: "buildDate dl (getUTCFullYear now) = Some c"
    and c': "buildDate dl (getUTCFullYear now + 1) = Some c'"
    by (auto simp: validAt_def validIn_def)
  show ?thesis
    by (simp add: getNextOccurrence_candidate [OF c] c')
qed

text \<open>
  Claim C2. The resolver answers with the instant built for the pivot's year when that
  instant is after the pivot and with the instant built for the next year otherwise, and
  the claim adds that the answer is always after the pivot. The year is the pivot's UTC
  year while the deadline is read at its own offset: for a deadline at 00:00 on 1 January
  at offset +01:00 and the pivot 2025-12-31T23:30:00Z, both instants are valid, the one
  built for 2025 is eleven months back, and the one built for 2026 is
  2025-12-31T23:00:00Z, half an hour before the pivot.
\<close>

theorem getNextOccurrence_before_pivot:
  "getUTCFullYear 1767223800000 = 2025
   \<and> buildDate (sampleDeadline 1 1 ''+01:00'') 2025 = Some 1735686000000
   \<and> buildDate (sampleDeadline 1 1 ''+01:00'') 2026 = Some 1767222000000
   \<and> getNextOccurrence (sampleDeadline 1 1 ''+01:00'') 1767223800000 = Some 1767222000000
   \<and> (1767222000000 :: int) < 1767223800000"
  by code_simp

text \<open>
  Claim C10. At the same input the countdown of a dated, non-rolling entry is the
  terminal token: the formatter answers \<^verbatim>\<open>Closed\<close>, and so does the cell of the row.
\<close>

theorem dated_entry_shows_Closed:
  "validAt (sampleDeadline 1 1 ''+01:00'') 1767223800000
   \<and> formatCountdown (getNextOccurrence (sampleDeadline 1 1 ''+01:00'') 1767223800000)
        1767223800000 = ''Closed''
   \<and> renderRow_countdown
        (sampleConf ''NYE'' None (Some (sampleDeadline 1 1 ''+01:00'')) False)
        1767223800000 = ''Closed''"
  by code_simp

section \<open>The countdown formatter\<close>

lemma render_m_not_Closed: "xs @ ''m'' \<noteq> ''Closed''"
proof
  assume "xs @ ''m'' = ''Closed''"
  then have "last (xs @ ''m'') = last ''Closed''" by (rule arg_cong)
  then show False by simp
qed

lemma render_s_not_Closed: "xs @ ''s'' \<noteq> ''Closed''"
proof
  assume "xs @ ''s'' = ''Closed''"
  then have "last (xs @ ''s'') = last ''Closed''" by (rule arg_cong)
  then show False by simp
qed

lemma formatCountdown_Closed_iff:
  "formatCountdown (Some T) now = ''Closed'' \<longleftrightarrow> T \<le> now"
proof (cases "T \<le> now")
  case True
  then show ?thesis by (simp add: formatCountdown_def toDouble_nonpositive_iff)
next
  case False
  have m: "\<And>a b c. a @ ''d '' @ b @ ''h '' @ c @ ''m'' \<noteq> ''Closed''"
    using render_m_not_Closed [of "_ @ ''d '' @ _ @ ''h '' @ _"] by simp
  have s3: "\<And>a b c. a @ ''h '' @ b @ ''m '' @ c @ ''s'' \<noteq> ''Closed''"
    using render_s_not_Closed [of "_ @ ''h '' @ _ @ ''m '' @ _"] by simp
  have s2: "\<And>a b. a @ ''m '' @ b @ ''s'' \<noteq> ''Closed''"
    using render_s_not_Closed [of "_ @ ''m '' @ _"] by simp
  from False show ?thesis
    unfolding formatCountdown_def Let_def using m s3 s2
    by (simp add: toDouble_nonpositive_iff)
qed

text \<open>Days, hours, minutes and seconds as the code computes them from whole seconds.\<close>

lemma seconds_decompose:
  fixes n :: int
  assumes "0 \<le> n"
  shows "0 \<le> n div 86400 \<and> 0 \<le> n mod 86400 div 3600 \<and> n mod 86400 div 3600 < 24
       \<and> 0 \<le> n mod 3600 div 60 \<and> n mod 3600 div 60 < 60 \<and> 0 \<le> n mod 60 \<and> n mod 60 < 60
       \<and> n div 86400 * 86400 + n mod 86400 div 3600 * 3600 + n mod 3600 div 60 * 60 + n mod 60 = n"
proof -
  have a: "n mod 86400 mod 3600 = n mod 3600"
    by (rule mod_mod_cancel) simp
  have b: "n mod 3600 mod 60 = n mod 60"
    by (rule mod_mod_cancel) simp
  have c: "n mod 86400 div 3600 * 3600 + n mod 3600 = n mod 86400"
    using div_mult_mod_eq [of "n mod 86400" 3600] by (simp only: a)
  have d: "n mod 3600 div 60 * 60 + n mod 60 = n mod 3600"
    using div_mult_mod_eq [of "n mod 3600" 60] by (simp only: b)
  have e: "n div 86400 * 86400 + n mod 86400 = n"
    by (rule div_mult_mod_eq)
  have f: "n mod 86400 div 3600 < 24"
    using pos_mod_bound [of 86400 n] by (simp add: div_less_iff_less_mult flip: zdiv_int)
  have g: "n mod 3600 div 60 < 60"
    using pos_mod_bound [of 3600 n] by simp
  have h: "0 \<le> n div 86400" using assms by simp
  have i: "0 \<le> n mod 86400 div 3600" by simp
  have j: "0 \<le> n mod 3600 div 60" by simp
  have "n div 86400 * 86400 + n mod 86400 div 3600 * 3600 + n mod 3600 div 60 * 60 + n mod 60
      = n div 86400 * 86400 + (n mod 86400 div 3600 * 3600 + (n mod 3600 div 60 * 60 + n mod 60))"
    by (simp only: add.assoc)
  also have "\<dots> = n div 86400 * 86400 + (n mod 86400 div 3600 * 3600 + n mod 3600)"
    by (simp only: d)
  also have "\<dots> = n div 86400 * 86400 + n mod 86400"
    by (simp only: c)
  also have "\<dots> = n"
    by (rule e)
  finally have k: "n div 86400 * 86400 + n mod 86400 div 3600 * 3600 + n mod 3600 div 60 * 60
      + n mod 60 = n" .
  have l: "0 \<le> n mod 60" and m: "n mod 60 < 60" by simp_all
  from f g h i j k l m show ?thesis by blast
qed

text \<open>
  Claim C3. For every target instant \<open>T\<close> and reference instant \<open>now\<close> the formatter
  answers \<^verbatim>\<open>Closed\<close> exactly when \<open>T \<le> now\<close>. Otherwise, when the difference is at
  most \<open>2 ^ 53\<close> (\<open>9007199254740992\<close>), so that the double the code computes is the
  difference itself, the whole seconds of the difference split into days \<open>d\<close>, hours
  \<open>h < 24\<close>, minutes \<open>m < 60\<close> and seconds \<open>s < 60\<close>, and the answer is
  \<^verbatim>\<open>{d}d {h}h {m}m\<close> when \<open>d > 0\<close>, \<^verbatim>\<open>{h}h {m}m {s}s\<close> when \<open>d = 0\<close> and \<open>h > 0\<close>,
  and \<^verbatim>\<open>{m}m {s}s\<close> otherwise.
\<close>

theorem formatCountdown_spec:
  "(formatCountdown (Some T) now = ''Closed'' \<longleftrightarrow> T \<le> now) \<and>
   (now < T \<and> T - now \<le> 9007199254740992 \<longrightarrow>
     (\<exists>d h m s. 0 \<le> d \<and> 0 \<le> h \<and> h < 24 \<and> 0 \<le> m \<and> m < 60 \<and> 0 \<le> s \<and> s < 60
        \<and> d * 86400 + h * 3600 + m * 60 + s = (T - now) div 1000
        \<and> formatCountdown (Some T) now =
            (if 0 < d then toString d @ ''d '' @ toString h @ ''h '' @ toString m @ ''m''
             else if 0 < h then toString h @ ''h '' @ toString m @ ''m '' @ toString s @ ''s''
             else toString m @ ''m '' @ toString s @ ''s'')))"
proof (intro conjI impI)
  show "formatCountdown (Some T) now = ''Closed'' \<longleftrightarrow> T \<le> now"
    by (rule formatCountdown_Closed_iff)
next
  assume range: "now < T \<and> T - now \<le> 9007199254740992"
  then have lt: "now < T" and exact: "\<bar>T - now\<bar> \<le> 9007199254740992" by simp_all
  define n where "n = (T - now) div 1000"
  have n0: "0 \<le> n" using lt by (simp add: n_def)
  note sd = seconds_decompose [OF n0]
  have fc: "formatCountdown (Some T) now =
      (if 0 < n div 86400 then
         toString (n div 86400) @ ''d '' @ toString (n mod 86400 div 3600) @ ''h ''
           @ toString (n mod 3600 div 60) @ ''m''
       else if 0 < n mod 86400 div 3600 then
         toString (n mod 86400 div 3600) @ ''h '' @ toString (n mod 3600 div 60) @ ''m ''
           @ toString (n mod 60) @ ''s''
       else toString (n mod 3600 div 60) @ ''m '' @ toString (n mod 60) @ ''s'')"
    using lt by (simp add: formatCountdown_def Let_def n_def toDouble_exact [OF exact])
  show "\<exists>d h m s. 0 \<le> d \<and> 0 \<le> h \<and> h < 24 \<and> 0 \<le> m \<and> m < 60 \<and> 0 \<le> s \<and> s < 60
        \<and> d * 86400 + h * 3600 + m * 60 + s = (T - now) div 1000
        \<and> formatCountdown (Some T) now =
            (if 0 < d then toString d @ ''d '' @ toString h @ ''h '' @ toString m @ ''m''
             else if 0 < h then toString h @ ''h '' @ toString m @ ''m '' @ toString s @ ''s''
             else toString m @ ''m '' @ toString s @ ''s'')"
    unfolding n_def [symmetric]
  proof (intro exI conjI)
    show "0 \<le> n div 86400" using sd by blast
    show "0 \<le> n mod 86400 div 3600" using sd by blast
    show "n mod 86400 div 3600 < 24" using sd by blast
    show "0 \<le> n mod 3600 div 60" using sd by blast
    show "n mod 3600 div 60 < 60" using sd by blast
    show "0 \<le> n mod 60" using sd by blast
    show "n mod 60 < 60" using sd by blast
    show "n div 86400 * 86400 + n mod 86400 div 3600 * 3600 + n mod 3600 div 60 * 60
            + n mod 60 = n" using sd by blast
    show "formatCountdown (Some T) now =
      (if 0 < n div 86400 then
         toString (n div 86400) @ ''d '' @ toString (n mod 86400 div 3600) @ ''h ''
           @ toString (n mod 3600 div 60) @ ''m''
       else if 0 < n mod 86400 div 3600 then
         toString (n mod 86400 div 3600) @ ''h '' @ toString (n mod 3600 div 60) @ ''m ''
           @ toString (n mod 60) @ ''s''
       else toString (n mod 3600 div 60) @ ''m '' @ toString (n mod 60) @ ''s'')"
      by (rule fc)
  qed
qed

theorem formatCountdown_spec_witness:
  "formatCountdown (Some 7) 7 = ''Closed''
   \<and> formatCountdown (Some 183845000) 0 \<noteq> ''Closed''
   \<and> (\<exists>d h m s. d * 86400 + h * 3600 + m * 60 + s = (183845000 - 0) div (1000 :: int)
        \<and> 0 \<le> d \<and> 0 \<le> h \<and> h < 24 \<and> 0 \<le> m \<and> m < 60 \<and> 0 \<le> s \<and> s < 60
        \<and> formatCountdown (Some 183845000) 0 =
            (if 0 < d then toString d @ ''d '' @ toString h @ ''h '' @ toString m @ ''m''
             else if 0 < h then toString h @ ''h '' @ toString m @ ''m '' @ toString s @ ''s''
             else toString m @ ''m '' @ toString s @ ''s''))"
proof -
  have a: "formatCountdown (Some 7) 7 = ''Closed''"
    using formatCountdown_spec [of 7 7] by simp
  have "(formatCountdown (Some 183845000) 0 = ''Closed'') = (183845000 \<le> (0::int))"
    using formatCountdown_spec [of 183845000 0] by (rule conjunct1)
  then have b: "formatCountdown (Some 183845000) 0 \<noteq> ''Closed''" by simp
  have "(0::int) < 183845000 \<and> (183845000::int) - 0 \<le> 9007199254740992" by simp
  with formatCountdown_spec [of 183845000 0] have c:
    "\<exists>d h m s. 0 \<le> d \<and> 0 \<le> h \<and> h < 24 \<and> 0 \<le> m \<and> m < 60 \<and> 0 \<le> s \<and> s < 60
        \<and> d * 86400 + h * 3600 + m * 60 + s = (183845000 - 0) div (1000 :: int)
        \<and> formatCountdown (Some 183845000) 0 =
            (if 0 < d then toString d @ ''d '' @ toString h @ ''h '' @ toString m @ ''m''
             else if 0 < h then toString h @ ''h '' @ toString m @ ''m '' @ toString s @ ''s''
             else toString m @ ''m '' @ toString s @ ''s'')"
    by blast
  from a b c show ?thesis by blast
qed

text \<open>The three renderings on the differences the specification lists.\<close>

lemma formatCountdown_examples:
  "formatCountdown (Some 183845000) 0 = ''2d 3h 4m''"
  "formatCountdown (Some 11045000) 0 = ''3h 4m 5s''"
  "formatCountdown (Some 245000) 0 = ''4m 5s''"
  by (simp_all add: formatCountdown_def toDouble_def roundMagnitude_def excessBits.simps
      toString_def digits.simps)

text \<open>
  Beyond \<open>2 ^ 53\<close> the difference is rounded before it is split: between the latest and
  the earliest but one time value the code counts a full 200000000 days.
\<close>

lemma formatCountdown_rounded_example:
  "formatCountdown (Some 8640000000000000) (- 8639999999999999) = ''200000000d 0h 0m''"
  by (simp add: formatCountdown_def toDouble_def roundMagnitude_def excessBits.simps
      toString_def digits.simps)

section \<open>The range of resolved instants\<close>

subsection \<open>The year of an instant\<close>

lemma int_div_bounds:
  fixes x b :: int
  assumes "0 < b"
  shows "b * (x div b) \<le> x" and "x < b * (x div b) + b"
proof -
  have e: "b * (x div b) + x mod b = x" by (rule mult_div_mod_eq)
  have l: "0 \<le> x mod b" using assms by (rule pos_mod_sign)
  have u: "x mod b < b" using assms by (rule pos_mod_bound)
  from e l show "b * (x div b) \<le> x" by linarith
  from e u show "x < b * (x div b) + b" by linarith
qed

lemma DayFromYear_scaled:
  "400 * DayFromYear y =
     146000 * y - 287620000 + 400 * ((y - 1969) div 4) - 400 * ((y - 1901) div 100)
       + 400 * ((y - 1601) div 400)"
  by (simp add: DayFromYear_def algebra_simps)

lemma DayFromYear_upper: "400 * DayFromYear y \<le> 146097 * y - 287810501"
proof -
  have a: "4 * ((y - 1969) div 4) \<le> y - 1969" by (rule int_div_bounds) simp
  have b: "y - 1901 < 100 * ((y - 1901) div 100) + 100" by (rule int_div_bounds) simp
  have c: "400 * ((y - 1601) div 400) \<le> y - 1601" by (rule int_div_bounds) simp
  from a b c show ?thesis unfolding DayFromYear_scaled by linarith
qed

lemma DayFromYear_lower: "146097 * y - 287811596 \<le> 400 * DayFromYear y"
proof -
  have a: "y - 1969 < 4 * ((y - 1969) div 4) + 4" by (rule int_div_bounds) simp
  have b: "100 * ((y - 1901) div 100) \<le> y - 1901" by (rule int_div_bounds) simp
  have c: "y - 1601 < 400 * ((y - 1601) div 400) + 400" by (rule int_div_bounds) simp
  from a b c show ?thesis unfolding DayFromYear_scaled by linarith
qed

lemma YearFromDay_bounds:
  "DayFromYear (YearFromDay d) \<le> d \<and> d < DayFromYear (YearFromDay d + 1)"
proof -
  define q where "q = (400 * d) div 146097"
  define y where "y = 1970 + q"
  have lo: "146097 * q \<le> 400 * d"
    unfolding q_def by (rule int_div_bounds) simp
  have hi: "400 * d < 146097 * q + 146097"
    unfolding q_def by (rule int_div_bounds) simp
  have "400 * DayFromYear (1969 + q) \<le> 146097 * (1969 + q) - 287810501"
    by (rule DayFromYear_upper)
  then have "400 * DayFromYear (1969 + q) \<le> 146097 * q - 145508"
    by (simp add: algebra_simps)
  with lo have "400 * DayFromYear (1969 + q) \<le> 400 * d" by linarith
  then have a: "DayFromYear (y - 1) \<le> d" by (simp add: y_def)
  have "146097 * (1972 + q) - 287811596 \<le> 400 * DayFromYear (1972 + q)"
    by (rule DayFromYear_lower)
  then have "146097 * q + 291688 \<le> 400 * DayFromYear (1972 + q)"
    by (simp add: algebra_simps)
  with hi have "400 * d < 400 * DayFromYear (1972 + q)" by linarith
  then have b: "d < DayFromYear (y + 2)" by (simp add: y_def)
  have c: "y + 1 + 1 = y + 2" "y - 1 + 1 = y" by simp_all
  have "YearFromDay d = (if d < DayFromYear y then y - 1
         else if DayFromYear (y + 1) \<le> d then y + 1 else y)"
    by (simp add: YearFromDay_def y_def q_def Let_def)
  then show ?thesis
    using a b by (auto simp: c)
qed

lemma getUTCFullYear_bounds:
  "DayFromYear (getUTCFullYear t) * msPerDay \<le> t"
  "t < DayFromYear (getUTCFullYear t + 1) * msPerDay"
proof -
  define d where "d = t div 86400000"
  have lo: "86400000 * d \<le> t"
    unfolding d_def by (rule int_div_bounds) simp
  have hi: "t < 86400000 * d + 86400000"
    unfolding d_def by (rule int_div_bounds) simp
  have y: "getUTCFullYear t = YearFromDay d"
    by (simp add: getUTCFullYear_def msPerDay_def d_def)
  have a: "DayFromYear (YearFromDay d) \<le> d" and b: "d + 1 \<le> DayFromYear (YearFromDay d + 1)"
    using YearFromDay_bounds [of d] by simp_all
  have "86400000 * DayFromYear (YearFromDay d) \<le> 86400000 * d"
    using a by simp
  with lo show "DayFromYear (getUTCFullYear t) * msPerDay \<le> t"
    by (simp add: y msPerDay_def)
  have "86400000 * (d + 1) \<le> 86400000 * DayFromYear (YearFromDay d + 1)"
    using b by (simp only: mult_le_cancel_left_pos zero_less_numeral)
  then have "86400000 * d + 86400000 \<le> 86400000 * DayFromYear (YearFromDay d + 1)"
    by (simp add: algebra_simps)
  with hi show "t < DayFromYear (getUTCFullYear t + 1) * msPerDay"
    by (simp add: y msPerDay_def)
qed

subsection \<open>Instants of the date-time format\<close>

lemma digitVal_le_9: "digitVal c = Some d \<Longrightarrow> d \<le> 9"
  by (auto simp: digitVal_def Let_def split: if_splits)

lemma parseDigits_bound: "parseDigits acc s = Some v \<Longrightarrow> v < (acc + 1) * 10 ^ length s"
proof (induction s arbitrary: acc)
  case Nil
  then show ?case by simp
next
  case (Cons c cs)
  from Cons.prems obtain d where d: "digitVal c = Some d"
    and rest: "parseDigits (10 * acc + d) cs = Some v"
    by (auto split: option.splits)
  have "v < (10 * acc + d + 1) * 10 ^ length cs"
    using Cons.IH [OF rest] .
  also have "\<dots> \<le> (10 * acc + 10) * 10 ^ length cs"
    using digitVal_le_9 [OF d] by (intro mult_right_mono) simp_all
  also have "\<dots> = (acc + 1) * 10 ^ length (c # cs)"
    by (simp add: algebra_simps)
  finally show ?case .
qed

lemma parseField_bound: "parseField n s = Some v \<Longrightarrow> v < 10 ^ n"
  using parseDigits_bound [of 0 s v] by (auto simp: parseField_def split: if_splits)

lemma parseOffset_bound:
  assumes "parseOffset s = Some off"
  shows "\<bar>off\<bar> \<le> 1439"
proof (cases "s = ''Z''")
  case True
  then show ?thesis using assms by (simp add: parseOffset_def)
next
  case False
  then obtain h m where "h \<le> 23" and "m \<le> 59"
    and "off = (if s ! 0 = CHR ''-'' then - 1 else 1) * (60 * int h + int m)"
    using assms by (auto simp: parseOffset_def split: if_splits option.splits)
  then show ?thesis by (auto simp: abs_le_iff)
qed

lemma monthLengths_le_31:
  assumes "k < 12"
  shows "monthLengths y ! k \<le> 31"
proof -
  from assms have "k = 0 \<or> k = 1 \<or> k = 2 \<or> k = 3 \<or> k = 4 \<or> k = 5 \<or> k = 6 \<or> k = 7
      \<or> k = 8 \<or> k = 9 \<or> k = 10 \<or> k = 11"
    by presburger
  then show ?thesis by (auto simp: monthLengths_def)
qed

lemma monthLengths_prefix:
  shows "0 \<le> sum_list (take k (monthLengths y))"
    and "sum_list (take k (monthLengths y)) \<le> 366"
proof -
  have nn: "0 \<le> x" if "x \<in> set (monthLengths y)" for x
    using that by (auto simp: monthLengths_def)
  have "0 \<le> x" if "x \<in> set (take k (monthLengths y))" for x
    using nn in_set_takeD [OF that] by blast
  then show a: "0 \<le> sum_list (take k (monthLengths y))"
    by (rule sum_list_nonneg)
  have "0 \<le> x" if "x \<in> set (drop k (monthLengths y))" for x
    using nn in_set_dropD [OF that] by blast
  then have b: "0 \<le> sum_list (drop k (monthLengths y))"
    by (rule sum_list_nonneg)
  have "sum_list (take k (monthLengths y)) + sum_list (drop k (monthLengths y))
      = sum_list (monthLengths y)"
    by (simp flip: sum_list_append)
  moreover have "sum_list (monthLengths y) \<le> 366"
    by (simp add: monthLengths_def)
  ultimately show "sum_list (take k (monthLengths y)) \<le> 366"
    using b by linarith
qed

lemma DayFromYear_range:
  assumes "0 \<le> y" and "y \<le> 9999"
  shows "- 719529 \<le> DayFromYear y" and "DayFromYear y \<le> 2932533"
proof -
  have "146097 * y \<le> 1460823903" using assms(2) by simp
  with DayFromYear_upper [of y] have "400 * DayFromYear y \<le> 1173013402" by linarith
  then show "DayFromYear y \<le> 2932533" by simp
  have "0 \<le> 146097 * y" using assms(1) by simp
  with DayFromYear_lower [of y] have "- 287811596 \<le> 400 * DayFromYear y" by linarith
  then show "- 719529 \<le> DayFromYear y" by simp
qed

text \<open>
  An instant of the format lies in the years 0 to 9999, far inside the range where doubles
  hold integers exactly.
\<close>

lemma parseDate_range:
  assumes "parseDate s = Some t"
  shows "\<bar>t\<bar> \<le> 300000000000000"
proof -
  from assms obtain y mo d h mi sec off where
    y: "parseField 4 (take 4 s) = Some y"
    and off: "parseOffset (drop 19 s) = Some off"
    and c: "1 \<le> mo" "mo \<le> 12" "1 \<le> d" "int d \<le> monthLengths (int y) ! (mo - 1)"
      "h \<le> 23" "mi \<le> 59" "sec \<le> 59"
    and t: "t = MakeDay (int y) mo d * msPerDay + (int h * 60 + int mi) * 60000
              + int sec * 1000 - off * 60000"
    by (auto simp: parseDate_def split: if_splits option.splits)
  have "y < 10 ^ 4" using parseField_bound [OF y] .
  then have y': "0 \<le> int y" "int y \<le> 9999" by simp_all
  note D = DayFromYear_range [OF y']
  note P = monthLengths_prefix [of "mo - 1" "int y"]
  have "monthLengths (int y) ! (mo - 1) \<le> 31"
    using c(2) by (intro monthLengths_le_31) simp
  with c(4) have d: "int d \<le> 31" by linarith
  have d1: "1 \<le> int d" using c(3) by simp
  define day where "day = MakeDay (int y) mo d"
  have "day = DayFromYear (int y) + sum_list (take (mo - 1) (monthLengths (int y))) + int d - 1"
    by (simp add: day_def MakeDay_def)
  then have day_eq: "day = DayFromYear (int y) + (sum_list (take (mo - 1) (monthLengths (int y)))
      + (int d - 1))"
    by simp
  have "- 719529 + (0 + 0) \<le> DayFromYear (int y)
      + (sum_list (take (mo - 1) (monthLengths (int y))) + (int d - 1))"
    using D(1) P(1) d1 by (intro add_mono) simp_all
  moreover have "DayFromYear (int y)
      + (sum_list (take (mo - 1) (monthLengths (int y))) + (int d - 1)) \<le> 2932533 + (366 + 30)"
    using D(2) P(2) d by (intro add_mono) simp_all
  ultimately have day: "- 719529 \<le> day" "day \<le> 2932929"
    by (simp_all add: day_eq)
  have "- 719529 * 86400000 \<le> day * 86400000"
    using day(1) by (intro mult_right_mono) simp_all
  moreover have "day * 86400000 \<le> 2932929 * 86400000"
    using day(2) by (intro mult_right_mono) simp_all
  ultimately have ms: "- 62167305600000 \<le> day * 86400000"
    "day * 86400000 \<le> 253405065600000"
    by simp_all
  define tod where "tod = (int h * 60 + int mi) * 60000 + int sec * 1000"
  have tod: "0 \<le> tod" "tod \<le> 86399000"
    using c(5-7) by (simp_all add: tod_def)
  define shift where "shift = off * 60000"
  have shift: "- 86340000 \<le> shift" "shift \<le> 86340000"
    using parseOffset_bound [OF off] by (simp_all add: shift_def abs_le_iff)
  have "t = day * 86400000 + tod - shift"
    by (simp add: t day_def tod_def shift_def msPerDay_def)
  with ms tod shift have "- 300000000000000 \<le> t" "t \<le> 300000000000000" by linarith+
  then show ?thesis by (simp add: abs_le_iff)
qed

lemma getNextOccurrence_range:
  assumes "getNextOccurrence dl pivot = Some t"
  shows "\<bar>t\<bar> \<le> 300000000000000"
proof -
  from assms have "buildDate dl (getUTCFullYear pivot) = Some t
      \<or> buildDate dl (getUTCFullYear pivot + 1) = Some t"
    by (auto simp: getNextOccurrence_def Let_def split: option.splits if_splits)
  then show ?thesis
    by (auto simp: buildDate_def dest: parseDate_range)
qed

lemma resolvedInstant_range:
  assumes "resolvedInstant c now = Some t"
  shows "\<bar>t\<bar> \<le> 300000000000000"
  using assms getNextOccurrence_range
  by (auto simp: resolvedInstant_def split: option.splits if_splits)

text \<open>The difference of two resolved instants is computed exactly.\<close>

lemma num_sub_resolved:
  assumes "resolvedInstant a now = Some ta" and "resolvedInstant b now = Some tb"
  shows "num_sub (Num ta) (Num tb) = Num (ta - tb)"
proof -
  have "\<bar>ta - tb\<bar> \<le> 9007199254740992"
    using resolvedInstant_range [OF assms(1)] resolvedInstant_range [OF assms(2)] by linarith
  then show ?thesis by (simp add: toDouble_exact)
qed

section \<open>Properties of the comparator engine\<close>

lemma deadlineValue_cases:
  "deadlineValue c now =
     (if hasUsableDeadline c then getTime (resolvedInstant c now) else PosInf)"
  by (simp add: deadlineValue_def hasUsableDeadline_def resolvedInstant_def split: option.splits)

lemma wellFormed_resolvedInstant:
  assumes "wellFormed c now" and "hasUsableDeadline c"
  shows "\<exists>t. resolvedInstant c now = Some t"
  using assms by (auto simp: wellFormed_def)

lemma wellFormed_plainLabel: "wellFormed c now \<Longrightarrow> plainLabel (areaLabelFor c)"
  by (simp add: wellFormed_def)

text \<open>A deadline valid in the year of \<open>now\<close> and the next resolves at \<open>now\<close>.\<close>

lemma wellFormed_validAt:
  assumes "plainLabel (areaLabelFor c)"
    and "\<And>dl. deadline c = Some dl \<Longrightarrow> \<not> isRolling c \<Longrightarrow> validAt dl now"
  shows "wellFormed c now"
proof (cases "hasUsableDeadline c")
  case True
  then obtain dl where dl: "deadline c = Some dl" and r: "\<not> isRolling c"
    by (auto simp: hasUsableDeadline_def)
  from validAt_resolves [OF assms(2) [OF dl r]] obtain t where
    "getNextOccurrence dl now = Some t" by blast
  then have "resolvedInstant c now = Some t"
    using dl r by (simp add: resolvedInstant_def)
  then show ?thesis using assms(1) by (simp add: wellFormed_def)
next
  case False
  then show ?thesis using assms(1) by (simp add: wellFormed_def)
qed

lemma defaultCompare_cases:
  "defaultCompare lc a b now =
     (if hasUsableDeadline a \<and> hasUsableDeadline b then
        (if num_neq (getTime (resolvedInstant a now)) (getTime (resolvedInstant b now))
         then Inr (num_sub (getTime (resolvedInstant a now)) (getTime (resolvedInstant b now)))
         else Inr (Num (lc (acronym a) (acronym b))))
      else if hasUsableDeadline a then Inr (Num (- 1))
      else if hasUsableDeadline b then Inr (Num 1)
      else Inr (Num (lc (acronym a) (acronym b))))"
  by (auto simp: defaultCompare_def hasUsableDeadline_def resolvedInstant_def Let_def
           split: option.splits)

lemma defaultCompare_resolved:
  assumes "hasUsableDeadline a" and "hasUsableDeadline b"
    and "resolvedInstant a now = Some ta" and "resolvedInstant b now = Some tb"
  shows "defaultCompare lc a b now =
           Inr (Num (if ta \<noteq> tb then ta - tb else lc (acronym a) (acronym b)))"
  using assms num_sub_resolved [OF assms(3,4)] by (simp add: defaultCompare_cases)

lemma compareByDeadline_cases:
  "compareByDeadline lc dir a b now =
     (case (if hasUsableDeadline a then resolvedInstant a now else None,
            if hasUsableDeadline b then resolvedInstant b now else None) of
        (Some ta, Some tb) \<Rightarrow>
          if ta = tb then dir * lc (acronym a) (acronym b)
          else dir * (if ta < tb then - 1 else 1)
      | (Some ta, None) \<Rightarrow> dir * - 1
      | (None, Some tb) \<Rightarrow> dir * 1
      | (None, None) \<Rightarrow> dir * lc (acronym a) (acronym b))"
  by (auto simp: compareByDeadline_def deadlineValue_cases Let_def split: option.splits)

lemma compareConferences_Default:
  "key srt = Default \<Longrightarrow> compareConferences lc ao a b srt now = defaultCompare lc a b now"
  by (simp add: compareConferences_def)

lemma compareConferences_Area:
  "key srt = Area \<Longrightarrow>
   compareConferences lc ao a b srt now =
     (if num_neq (compareAreaLabels lc ao (Some (areaLabelFor a)) (Some (areaLabelFor b))) (Num 0)
      then Inr (num_times (if direction srt = Asc then 1 else - 1)
                  (compareAreaLabels lc ao (Some (areaLabelFor a)) (Some (areaLabelFor b))))
      else Inr (Num ((if direction srt = Asc then 1 else - 1) * lc (acronym a) (acronym b))))"
  by (simp add: compareConferences_def Let_def)

lemma compareConferences_keyed:
  "key srt \<noteq> Default \<Longrightarrow> key srt \<noteq> Area \<Longrightarrow>
   compareConferences lc ao a b srt now =
     Inr (Num ((if direction srt = Asc then 1 else - 1) *
       (case key srt of
          Acronym \<Rightarrow> lc (acronym a) (acronym b)
        | Location \<Rightarrow>
            if lc (orEmpty (location a)) (orEmpty (location b)) \<noteq> 0
            then lc (orEmpty (location a)) (orEmpty (location b))
            else lc (acronym a) (acronym b)
        | _ \<Rightarrow> compareByDeadline lc 1 a b now)))"
  by (cases "key srt")
     (auto simp: compareConferences_def Let_def compareByDeadline_cases split: option.splits)


subsection \<open>The area ranking\<close>

lemma fold_setProperty_lookup:
  fixes m :: "string \<rightharpoonup> 'v"
  assumes "k \<noteq> ''__proto__''"
  shows "fold (\<lambda>(ar, index) acc. setProperty acc ar index) ps m k =
     (case map_of (rev ps) k of Some i \<Rightarrow> Some i | None \<Rightarrow> m k)"
proof -
  define f :: "string \<times> 'v \<Rightarrow> (string \<rightharpoonup> 'v) \<Rightarrow> (string \<rightharpoonup> 'v)"
    where "f = (\<lambda>(ar, index) acc. setProperty acc ar index)"
  have step: "f (k', i') acc k = (if k' = k then Some i' else acc k)" for k' i' acc
    using assms by (auto simp: f_def setProperty_def)
  have "fold f ps m k = (case map_of (rev ps) k of Some i \<Rightarrow> Some i | None \<Rightarrow> m k)"
  proof (induction ps arbitrary: m)
    case Nil
    show ?case by simp
  next
    case (Cons p ps)
    obtain k' i' where p: "p = (k', i')" by (cases p)
    have "fold f (p # ps) m k = fold f ps (f (k', i') m) k"
      by (simp add: p)
    also have "\<dots> = (case map_of (rev ps) k of Some i \<Rightarrow> Some i
                      | None \<Rightarrow> f (k', i') m k)"
      by (rule Cons.IH)
    also have "\<dots> = (case map_of (rev (p # ps)) k of Some i \<Rightarrow> Some i | None \<Rightarrow> m k)"
      by (simp add: p step map_add_def split: option.splits)
    finally show ?case .
  qed
  then show ?thesis by (simp only: f_def)
qed

lemma fst_set_zip_upt: "fst ` set (rev (zip xs [0..<length xs])) = set xs"
proof -
  have m: "map fst (zip xs [0..<length xs]) = xs"
    by (rule map_fst_zip) simp
  have "fst ` set (rev (zip xs [0..<length xs])) = set (map fst (zip xs [0..<length xs]))"
    by (simp only: set_rev set_map)
  also have "\<dots> = set xs"
    by (simp only: m)
  finally show ?thesis .
qed

lemma areaPriority_unfold:
  "areaPriority ao =
     (fold (\<lambda>(ar, index) acc. setProperty acc ar index) (zip ao [0..<length ao]) Map.empty)
       (''Other Conferences'' \<mapsto> length ao)"
  by (simp add: areaPriority_def DEFAULT_AREA_ORDER_def Let_def setProperty_def)

lemma areaPriority_Other: "areaPriority ao ''Other Conferences'' = Some (length ao)"
  by (simp add: areaPriority_unfold)

lemma areaPriority_listed:
  assumes "l \<in> set ao" and "l \<noteq> ''Other Conferences''" and "l \<noteq> ''__proto__''"
  shows "\<exists>i < length ao. areaPriority ao l = Some i"
proof -
  have "l \<in> fst ` set (rev (zip ao [0..<length ao]))"
    using assms(1) by (simp only: fst_set_zip_upt)
  then have "map_of (rev (zip ao [0..<length ao])) l \<noteq> None"
    by (simp only: map_of_eq_None_iff not_not)
  then obtain i where i: "map_of (rev (zip ao [0..<length ao])) l = Some i"
    by blast
  then have "(l, i) \<in> set (rev (zip ao [0..<length ao]))"
    by (rule map_of_SomeD)
  then have "(l, i) \<in> set (zip ao [0..<length ao])"
    by simp
  then have "i < length ao"
    by (auto simp: in_set_zip)
  moreover have "areaPriority ao l = Some i"
    using assms(2) i by (simp add: areaPriority_unfold fold_setProperty_lookup [OF assms(3)])
  ultimately show ?thesis by blast
qed

lemma areaPriority_unlisted:
  assumes "l \<notin> set ao" and "l \<noteq> ''Other Conferences''" and "l \<noteq> ''__proto__''"
  shows "areaPriority ao l = None"
proof -
  have "l \<notin> fst ` set (rev (zip ao [0..<length ao]))"
    using assms(1) by (simp only: fst_set_zip_upt not_False_eq_True)
  then have "map_of (rev (zip ao [0..<length ao])) l = None"
    by (simp only: map_of_eq_None_iff not_False_eq_True)
  then show ?thesis
    using assms(2) by (simp add: areaPriority_unfold fold_setProperty_lookup [OF assms(3)])
qed

lemma plainLabel_not_proto: "plainLabel l \<Longrightarrow> l \<noteq> ''__proto__''"
  by (auto simp: plainLabel_def objectPrototypeKeys_def)

lemma plainLabel_Other: "plainLabel ''Other Conferences''"
  by (simp add: plainLabel_def objectPrototypeKeys_def)

text \<open>The rank of a plain label is a number.\<close>

lemma rank_plain:
  assumes "plainLabel l"
  shows "\<exists>r. rank ao (Some l) = RankNumber r"
  using assms plainLabel_not_proto [OF assms]
  by (auto simp: rank_def getProperty_def plainLabel_def split: option.splits)

lemma rank_listed:
  assumes "l \<in> set ao" and "l \<noteq> []" and "l \<noteq> ''Other Conferences''"
    and "l \<noteq> ''__proto__''"
  shows "\<exists>r. rank ao (Some l) = RankNumber r \<and> r < int (length ao)"
  using areaPriority_listed [OF assms(1,3,4)] assms(2,4)
  by (auto simp: rank_def getProperty_def)

lemma rank_unlisted:
  assumes "l \<notin> set ao" and "plainLabel l"
  shows "\<exists>r. rank ao (Some l) = RankNumber r \<and> int (length ao) \<le> r"
proof (cases "l = ''Other Conferences''")
  case True
  then show ?thesis by (simp add: rank_def getProperty_def areaPriority_Other)
next
  case False
  note np = plainLabel_not_proto [OF assms(2)]
  have "areaPriority ao l = None"
    by (rule areaPriority_unlisted [OF assms(1) False np])
  then show ?thesis
    using np assms(2) by (simp add: rank_def getProperty_def plainLabel_def)
qed

lemma rank_absent:
  "rank ao (Some (areaLabelFor c)) = RankNumber (int (length ao))" if "area c = None"
  using that
  by (simp add: rank_def getProperty_def areaLabelFor_def DEFAULT_AREA_ORDER_def
      areaPriority_Other)

text \<open>The rank of a label that names an inherited member is the member.\<close>

lemma rank_inherited_example:
  "rank [''AI''] (Some ''constructor'') = RankObject ''constructor''"
  "rank [''AI'', ''constructor''] (Some ''constructor'') = RankNumber 1"
  "rank [''AI'', ''__proto__''] (Some ''__proto__'') = RankObject ''__proto__''"
  by code_simp+

lemma compareAreaLabels_numbers:
  assumes "rank ao (Some la) = RankNumber ra" and "rank ao (Some lb) = RankNumber rb"
  shows "compareAreaLabels lc ao (Some la) (Some lb) =
           Num (if ra \<noteq> rb then ra - rb else lc la lb)"
  using assms by (simp add: compareAreaLabels_def Let_def orEmpty_def)

subsection \<open>Deadline and countdown keys\<close>

text \<open>
  Claim C1, as the code has it. For the keys deadline and countdown, an entry \<open>a\<close> with
  a resolved next-occurrence instant and an entry \<open>b\<close> without a usable deadline (rolling,
  or no deadline): ascending, \<open>a\<close> is ordered before \<open>b\<close>; descending, the direction
  multiplies this verdict as well and \<open>b\<close> is ordered before \<open>a\<close>.
\<close>

theorem deadline_sort_unresolvable_follows_direction:
  assumes "k = Deadline \<or> k = Countdown"
    and "hasUsableDeadline a" and "resolvedInstant a now = Some ta"
    and "\<not> hasUsableDeadline b"
  shows "compareConferences lc ao a b \<lparr>key = k, direction = dir\<rparr> now =
           Inr (Num (if dir = Asc then - 1 else 1))"
proof -
  have "compareByDeadline lc 1 a b now = - 1"
    using assms(2-4) by (simp add: compareByDeadline_cases)
  moreover have "key \<lparr>key = k, direction = dir\<rparr> \<noteq> Default"
    using assms(1) by auto
  ultimately show ?thesis
    using assms(1) by (auto simp: compareConferences_keyed)
qed

theorem deadline_sort_unresolvable_follows_direction_witness:
  "compareConferences ordinalCompare [''AI'']
      (sampleConf ''AAA'' (Some ''AI'') (Some (sampleDeadline 6 15 ''-12:00'')) False)
      (sampleConf ''RRR'' (Some ''AI'') None True)
      \<lparr>key = Countdown, direction = Asc\<rparr> 1767223800000 = Inr (Num (- 1))"
proof -
  have r: "resolvedInstant
      (sampleConf ''AAA'' (Some ''AI'') (Some (sampleDeadline 6 15 ''-12:00'')) False)
      1767223800000 = Some 1781524800000"
    by code_simp
  have u: "hasUsableDeadline
      (sampleConf ''AAA'' (Some ''AI'') (Some (sampleDeadline 6 15 ''-12:00'')) False)"
    by (simp add: hasUsableDeadline_def sampleConf_def)
  have n: "\<not> hasUsableDeadline (sampleConf ''RRR'' (Some ''AI'') None True)"
    by (simp add: hasUsableDeadline_def sampleConf_def)
  show ?thesis
    using deadline_sort_unresolvable_follows_direction [OF _ u r n, of Countdown ordinalCompare
        "[''AI'']" Asc]
    by simp
qed

text \<open>
  The claim as stated fails in the descending direction: the rolling entry is ordered
  before the dated one.
\<close>

theorem deadline_sort_desc_counterexample:
  "resolvedInstant
      (sampleConf ''AAA'' (Some ''AI'') (Some (sampleDeadline 6 15 ''-12:00'')) False)
      1767223800000 = Some 1781524800000
   \<and> resolvedInstant (sampleConf ''RRR'' (Some ''AI'') None True) 1767223800000 = None
   \<and> compareConferences ordinalCompare [''AI'']
      (sampleConf ''AAA'' (Some ''AI'') (Some (sampleDeadline 6 15 ''-12:00'')) False)
      (sampleConf ''RRR'' (Some ''AI'') None True)
      \<lparr>key = Deadline, direction = Desc\<rparr> 1767223800000 = Inr (Num 1)"
  by code_simp

subsection \<open>Area key\<close>

text \<open>
  Claim C5, as the code has it. Under the area key, for an entry \<open>a\<close> whose area is a
  label of AreaOrder (not empty, not the name of the default bucket and not
  \<^verbatim>\<open>__proto__\<close>) and an entry \<open>b\<close> whose area is absent, or is a plain label that is not
  in AreaOrder: ascending, \<open>a\<close> is ordered before \<open>b\<close>; descending, the direction
  multiplies the area verdict and \<open>b\<close> is ordered before \<open>a\<close>.
\<close>

theorem area_sort_unlisted_follows_direction:
  assumes "area a = Some la" and "la \<in> set ao" and "la \<noteq> []"
    and "la \<noteq> ''Other Conferences''" and "la \<noteq> ''__proto__''"
    and "area b = None \<or> (\<exists>lb. area b = Some lb \<and> lb \<notin> set ao \<and> plainLabel lb)"
  shows "\<exists>n. 0 < n \<and> compareConferences lc ao a b \<lparr>key = Area, direction = dir\<rparr> now =
           Inr (Num (if dir = Asc then - n else n))"
proof -
  have la: "areaLabelFor a = la"
    using assms(1) by (simp add: areaLabelFor_def)
  obtain ra where ra: "rank ao (Some (areaLabelFor a)) = RankNumber ra" "ra < int (length ao)"
    unfolding la using rank_listed [OF assms(2-5)] by blast
  obtain rb where rb: "rank ao (Some (areaLabelFor b)) = RankNumber rb" "int (length ao) \<le> rb"
  proof (cases "area b")
    case None
    then show ?thesis using that by (simp add: rank_absent)
  next
    case (Some lb)
    with assms(6) have "lb \<notin> set ao" and "plainLabel lb" by simp_all
    moreover have "areaLabelFor b = lb" using Some by (simp add: areaLabelFor_def)
    ultimately show ?thesis using that rank_unlisted [of lb ao] by auto
  qed
  define n where "n = rb - ra"
  have pos: "0 < n" using ra(2) rb(2) by (simp add: n_def)
  have "compareAreaLabels lc ao (Some (areaLabelFor a)) (Some (areaLabelFor b)) = Num (- n)"
    using compareAreaLabels_numbers [OF ra(1) rb(1), of lc] pos by (simp add: n_def)
  then have "compareConferences lc ao a b \<lparr>key = Area, direction = dir\<rparr> now =
          Inr (Num (if dir = Asc then - n else n))"
    using pos by (simp add: compareConferences_Area)
  with pos show ?thesis by blast
qed

theorem area_sort_unlisted_follows_direction_witness:
  "(\<exists>n. 0 < n \<and> compareConferences ordinalCompare [''AI'', ''Robotics'']
      (sampleConf ''AAA'' (Some ''Robotics'') None False)
      (sampleConf ''TTT'' None None False)
      \<lparr>key = Area, direction = Asc\<rparr> 0 = Inr (Num (- n)))
   \<and> (\<exists>n. 0 < n \<and> compareConferences ordinalCompare [''AI'', ''Robotics'']
      (sampleConf ''AAA'' (Some ''Robotics'') None False)
      (sampleConf ''ZZZ'' (Some ''Zed'') None False)
      \<lparr>key = Area, direction = Desc\<rparr> 0 = Inr (Num n))"
proof -
  have "\<exists>n. 0 < n \<and> compareConferences ordinalCompare [''AI'', ''Robotics'']
      (sampleConf ''AAA'' (Some ''Robotics'') None False)
      (sampleConf ''TTT'' None None False)
      \<lparr>key = Area, direction = Asc\<rparr> 0 = Inr (Num (if Asc = Asc then - n else n))"
    by (rule area_sort_unlisted_follows_direction [of _ "''Robotics''"])
       (simp_all add: sampleConf_def)
  then have absent: "\<exists>n. 0 < n \<and> compareConferences ordinalCompare [''AI'', ''Robotics'']
      (sampleConf ''AAA'' (Some ''Robotics'') None False)
      (sampleConf ''TTT'' None None False)
      \<lparr>key = Area, direction = Asc\<rparr> 0 = Inr (Num (- n))"
    by simp
  have "\<exists>n. 0 < n \<and> compareConferences ordinalCompare [''AI'', ''Robotics'']
      (sampleConf ''AAA'' (Some ''Robotics'') None False)
      (sampleConf ''ZZZ'' (Some ''Zed'') None False)
      \<lparr>key = Area, direction = Desc\<rparr> 0 = Inr (Num (if Desc = Asc then - n else n))"
    by (rule area_sort_unlisted_follows_direction [of _ "''Robotics''"])
       (simp_all add: sampleConf_def plainLabel_def objectPrototypeKeys_def)
  then have unlisted: "\<exists>n. 0 < n \<and> compareConferences ordinalCompare [''AI'', ''Robotics'']
      (sampleConf ''AAA'' (Some ''Robotics'') None False)
      (sampleConf ''ZZZ'' (Some ''Zed'') None False)
      \<lparr>key = Area, direction = Desc\<rparr> 0 = Inr (Num n)"
    by simp
  from absent unlisted show ?thesis by (rule conjI)
qed

text \<open>
  The claim as stated fails in the descending direction: the entry without an area is
  ordered before the entry of a listed area.
\<close>

theorem area_sort_desc_counterexample:
  "area (sampleConf ''AAA'' (Some ''Robotics'') None False) = Some ''Robotics''
   \<and> ''Robotics'' \<in> set [''AI'', ''Robotics'']
   \<and> area (sampleConf ''TTT'' None None False) = None
   \<and> compareConferences ordinalCompare [''AI'', ''Robotics'']
      (sampleConf ''AAA'' (Some ''Robotics'') None False)
      (sampleConf ''TTT'' None None False)
      \<lparr>key = Area, direction = Desc\<rparr> 0 = Inr (Num 1)"
  by code_simp

text \<open>
  An unlisted label that names a member of \<^verbatim>\<open>Object.prototype\<close> has that member for its
  rank, and the area verdict is \<^verbatim>\<open>NaN\<close> in both directions.
\<close>

lemma area_sort_inherited_example:
  "compareConferences ordinalCompare [''AI'']
      (sampleConf ''AAA'' (Some ''AI'') None False)
      (sampleConf ''CCC'' (Some ''constructor'') None False)
      \<lparr>key = Area, direction = Asc\<rparr> 0 = Inr NaN"
  "compareConferences ordinalCompare [''AI'']
      (sampleConf ''CCC'' (Some ''constructor'') None False)
      (sampleConf ''AAA'' (Some ''AI'') None False)
      \<lparr>key = Area, direction = Desc\<rparr> 0 = Inr NaN"
  by code_simp+

subsection \<open>Default key\<close>



subsection \<open>Totality and antisymmetry\<close>

text \<open>
  Claim C8. For every sort key and direction, every \<open>now\<close> and every two entries that are
  well formed at \<open>now\<close> (a plain area label, and a deadline that resolves at \<open>now\<close> when
  the entry uses one; rolling entries and entries without deadline, area or location
  included), the comparator throws nothing and returns a finite number.
\<close>

theorem compareConferences_total:
  assumes "wellFormed a now" and "wellFormed b now"
  shows "\<exists>n. compareConferences lc ao a b srt now = Inr (Num n)"
proof (cases "key srt = Default")
  case True
  show ?thesis
  proof (cases "hasUsableDeadline a \<and> hasUsableDeadline b")
    case both: True
    obtain ta tb where "resolvedInstant a now = Some ta" and "resolvedInstant b now = Some tb"
      using wellFormed_resolvedInstant assms both by blast
    then show ?thesis
      using True both by (simp add: compareConferences_Default defaultCompare_resolved)
  next
    case False
    then show ?thesis
      using True by (auto simp: compareConferences_Default defaultCompare_cases)
  qed
next
  case False
  show ?thesis
  proof (cases "key srt = Area")
    case True
    obtain ra rb where "rank ao (Some (areaLabelFor a)) = RankNumber ra"
      and "rank ao (Some (areaLabelFor b)) = RankNumber rb"
      using rank_plain wellFormed_plainLabel assms by meson
    from compareAreaLabels_numbers [OF this, of lc] show ?thesis
      using True by (simp add: compareConferences_Area)
  next
    case notArea: False
    with False show ?thesis by (simp add: compareConferences_keyed)
  qed
qed

theorem compareConferences_total_witness:
  "wellFormed (sampleConf ''ZZZ'' None (Some (sampleDeadline 6 15 ''-12:00'')) False) 0
   \<and> wellFormed (sampleConf ''AAA'' (Some ''Zed'') None True) 0
   \<and> (\<exists>n. compareConferences ordinalCompare [''AI'']
        (sampleConf ''ZZZ'' None (Some (sampleDeadline 6 15 ''-12:00'')) False)
        (sampleConf ''AAA'' (Some ''Zed'') None True)
        \<lparr>key = Area, direction = Desc\<rparr> 0 = Inr (Num n))"
proof -
  have a: "wellFormed (sampleConf ''ZZZ'' None (Some (sampleDeadline 6 15 ''-12:00'')) False) 0"
    by code_simp
  have b: "wellFormed (sampleConf ''AAA'' (Some ''Zed'') None True) 0"
    by code_simp
  from a b compareConferences_total [OF a b] show ?thesis by blast
qed

text \<open>
  Without a deadline that resolves the default comparator can return \<^verbatim>\<open>NaN\<close>; so can
  the area comparator on a label that is not plain.
\<close>

lemma defaultCompare_NaN_example:
  "compareConferences ordinalCompare []
     (sampleConf ''AAA'' None (Some (sampleDeadline 13 1 ''Z'')) False)
     (sampleConf ''BBB'' None (Some (sampleDeadline 6 15 ''Z'')) False)
     \<lparr>key = Default, direction = Asc\<rparr> 0 = Inr NaN"
  by code_simp

text \<open>
  A deadline on 29 February resolves, and its entry is well formed, at every \<open>now\<close> for
  which the resolver builds a leap year: here on 1 January 2024.
\<close>

lemma wellFormed_leap_day_example:
  "wellFormed (sampleConf ''LLL'' None (Some (sampleDeadline 2 29 ''Z'')) False) 1704067200000"
  by code_simp

lemma sgn_flip_zero:
  fixes x y :: int
  assumes "sgn x = - sgn y"
  shows "x = 0 \<longleftrightarrow> y = 0"
  using assms by (metis neg_equal_0_iff_equal sgn_0_0)

lemma compareByDeadline_antisym:
  assumes "\<And>x y. sgn (lc x y) = - sgn (lc y x)"
  shows "sgn (compareByDeadline lc 1 a b now) = - sgn (compareByDeadline lc 1 b a now)"
  using assms [of "acronym a" "acronym b"]
  by (auto simp: compareByDeadline_cases split: option.splits)

lemma first_nonzero_antisym:
  fixes p q r s :: int
  assumes "sgn p = - sgn r" and "sgn q = - sgn s"
  shows "sgn (if p \<noteq> 0 then p else q) = - sgn (if r \<noteq> 0 then r else s)"
  using assms sgn_flip_zero [OF assms(1)] by auto

lemma rank_difference_antisym:
  fixes ra rb x y :: int
  assumes "sgn x = - sgn y"
  shows "sgn (if ra \<noteq> rb then ra - rb else x) = - sgn (if rb \<noteq> ra then rb - ra else y)"
proof (cases "ra = rb")
  case True
  then show ?thesis using assms by simp
next
  case False
  have "sgn (ra - rb) = - sgn (rb - ra)"
    by (metis minus_diff_eq sgn_minus)
  then show ?thesis using False by auto
qed

text \<open>
  Claim C9. When the host's collation is antisymmetric, so is the comparator: for every
  sort key and direction, every \<open>now\<close> and every two entries well formed at \<open>now\<close> (plain
  area labels, deadlines that resolve), the verdicts on \<open>a\<close>, \<open>b\<close> and on \<open>b\<close>, \<open>a\<close> are
  finite numbers of opposite sign, or both zero.
\<close>

theorem compareConferences_antisymmetric:
  assumes lc: "\<And>x y. sgn (lc x y) = - sgn (lc y x)"
    and "wellFormed a now" and "wellFormed b now"
  shows "\<exists>m n. compareConferences lc ao a b srt now = Inr (Num m)
           \<and> compareConferences lc ao b a srt now = Inr (Num n)
           \<and> sgn m = - sgn n"
proof (cases "key srt = Default")
  case True
  show ?thesis
  proof (cases "hasUsableDeadline a \<and> hasUsableDeadline b")
    case both: True
    obtain ta tb where t: "resolvedInstant a now = Some ta" "resolvedInstant b now = Some tb"
      using wellFormed_resolvedInstant assms(2,3) both by blast
    have "sgn (ta - tb) = - sgn (tb - ta)"
      by (metis minus_diff_eq sgn_minus)
    then show ?thesis
      using True both t lc [of "acronym a" "acronym b"]
      by (auto simp: compareConferences_Default defaultCompare_resolved)
  next
    case False
    then show ?thesis
      using True lc [of "acronym a" "acronym b"]
      by (auto simp: compareConferences_Default defaultCompare_cases)
  qed
next
  case False
  define d :: int where "d = (if direction srt = Asc then 1 else - 1)"
  show ?thesis
  proof (cases "key srt = Area")
    case True
    obtain ra rb where ra: "rank ao (Some (areaLabelFor a)) = RankNumber ra"
      and rb: "rank ao (Some (areaLabelFor b)) = RankNumber rb"
      using rank_plain wellFormed_plainLabel assms(2,3) by meson
    define p where "p = (if ra \<noteq> rb then ra - rb else lc (areaLabelFor a) (areaLabelFor b))"
    define r where "r = (if rb \<noteq> ra then rb - ra else lc (areaLabelFor b) (areaLabelFor a))"
    have pr: "sgn p = - sgn r"
      unfolding p_def r_def by (rule rank_difference_antisym [OF lc])
    have ab: "compareConferences lc ao a b srt now =
        Inr (Num (d * (if p \<noteq> 0 then p else lc (acronym a) (acronym b))))"
      using True compareAreaLabels_numbers [OF ra rb, of lc]
      by (simp add: compareConferences_Area d_def p_def)
    have ba: "compareConferences lc ao b a srt now =
        Inr (Num (d * (if r \<noteq> 0 then r else lc (acronym b) (acronym a))))"
      using True compareAreaLabels_numbers [OF rb ra, of lc]
      by (simp add: compareConferences_Area d_def r_def)
    have "sgn (if p \<noteq> 0 then p else lc (acronym a) (acronym b))
        = - sgn (if r \<noteq> 0 then r else lc (acronym b) (acronym a))"
      by (rule first_nonzero_antisym [OF pr lc])
    then have "sgn (d * (if p \<noteq> 0 then p else lc (acronym a) (acronym b)))
        = - sgn (d * (if r \<noteq> 0 then r else lc (acronym b) (acronym a)))"
      by (simp add: sgn_mult)
    with ab ba show ?thesis by blast
  next
    case notArea: False
    define X where "X = (\<lambda>a b.
         (case key srt of
            Acronym \<Rightarrow> lc (acronym a) (acronym b)
          | Location \<Rightarrow>
              if lc (orEmpty (location a)) (orEmpty (location b)) \<noteq> 0
              then lc (orEmpty (location a)) (orEmpty (location b))
              else lc (acronym a) (acronym b)
          | _ \<Rightarrow> compareByDeadline lc 1 a b now))"
    have ab: "compareConferences lc ao a b srt now = Inr (Num (d * X a b))"
      and ba: "compareConferences lc ao b a srt now = Inr (Num (d * X b a))"
      using False notArea by (simp_all add: compareConferences_keyed d_def X_def)
    have "sgn (X a b) = - sgn (X b a)"
    proof (cases "key srt")
      case Default
      with False show ?thesis by simp
    next
      case Area
      with notArea show ?thesis by simp
    next
      case Acronym
      have "sgn (lc (acronym a) (acronym b)) = - sgn (lc (acronym b) (acronym a))"
        by (rule lc)
      then show ?thesis by (simp only: X_def Acronym SortKey.case)
    next
      case Deadline
      have "sgn (compareByDeadline lc 1 a b now) = - sgn (compareByDeadline lc 1 b a now)"
        by (rule compareByDeadline_antisym [OF lc])
      then show ?thesis by (simp only: X_def Deadline SortKey.case)
    next
      case Countdown
      have "sgn (compareByDeadline lc 1 a b now) = - sgn (compareByDeadline lc 1 b a now)"
        by (rule compareByDeadline_antisym [OF lc])
      then show ?thesis by (simp only: X_def Countdown SortKey.case)
    next
      case Location
      have "sgn (if lc (orEmpty (location a)) (orEmpty (location b)) \<noteq> 0
                 then lc (orEmpty (location a)) (orEmpty (location b))
                 else lc (acronym a) (acronym b))
          = - sgn (if lc (orEmpty (location b)) (orEmpty (location a)) \<noteq> 0
                   then lc (orEmpty (location b)) (orEmpty (location a))
                   else lc (acronym b) (acronym a))"
        by (rule first_nonzero_antisym [OF lc lc])
      then show ?thesis by (simp only: X_def Location SortKey.case)
    qed
    then have "sgn (d * X a b) = - sgn (d * X b a)"
      by (simp add: sgn_mult)
    with ab ba show ?thesis by blast
  qed
qed

lemma ordinalCompare_antisym: "sgn (ordinalCompare x y) = - sgn (ordinalCompare y x)"
  by (induction x y rule: ordinalCompare.induct) auto

theorem compareConferences_antisymmetric_witness:
  "\<exists>m n. compareConferences ordinalCompare [''AI'']
        (sampleConf ''ZZZ'' None (Some (sampleDeadline 6 15 ''-12:00'')) False)
        (sampleConf ''AAA'' (Some ''AI'') None True)
        \<lparr>key = Area, direction = Desc\<rparr> 0 = Inr (Num m)
      \<and> compareConferences ordinalCompare [''AI'']
        (sampleConf ''AAA'' (Some ''AI'') None True)
        (sampleConf ''ZZZ'' None (Some (sampleDeadline 6 15 ''-12:00'')) False)
        \<lparr>key = Area, direction = Desc\<rparr> 0 = Inr (Num n)
      \<and> sgn m = - sgn n"
proof -
  have a: "wellFormed (sampleConf ''ZZZ'' None (Some (sampleDeadline 6 15 ''-12:00'')) False) 0"
    by code_simp
  have b: "wellFormed (sampleConf ''AAA'' (Some ''AI'') None True) 0"
    by code_simp
  show ?thesis
    by (rule compareConferences_antisymmetric [OF ordinalCompare_antisym a b])
qed

section \<open>Properties of the view projector\<close>

subsection \<open>Sorting\<close>

lemma insertBy_total:
  assumes "\<And>y. \<exists>v. cmp x y = Inr v"
  shows "\<exists>zs. insertBy cmp x ys = Inr zs \<and> mset zs = add_mset x (mset ys)"
proof (induction ys)
  case Nil
  show ?case by simp
next
  case (Cons y ys)
  obtain v where v: "cmp x y = Inr v" using assms by blast
  obtain zs where zs: "insertBy cmp x ys = Inr zs" "mset zs = add_mset x (mset ys)"
    using Cons.IH by blast
  show ?case by (simp add: v zs)
qed

lemma sortBy_total:
  assumes "\<And>x y. \<exists>v. cmp x y = Inr v"
  shows "\<exists>ys. sortBy cmp xs = Inr ys \<and> mset ys = mset xs"
proof (induction xs)
  case Nil
  show ?case by simp
next
  case (Cons x xs)
  obtain ys where ys: "sortBy cmp xs = Inr ys" "mset ys = mset xs"
    using Cons.IH by blast
  obtain zs where "insertBy cmp x ys = Inr zs" "mset zs = add_mset x (mset ys)"
    using insertBy_total [of cmp x ys] assms by blast
  then show ?case by (simp add: ys)
qed

lemma insertBy_sorted_key:
  fixes k :: "'a \<Rightarrow> int"
  assumes "\<And>y. y \<in> set ys \<Longrightarrow> cmp x y = Inr (Num (k x - k y))"
    and "sorted (map k ys)"
  shows "\<exists>zs. insertBy cmp x ys = Inr zs \<and> mset zs = add_mset x (mset ys)
           \<and> sorted (map k zs)"
  using assms
proof (induction ys)
  case Nil
  show ?case by simp
next
  case (Cons y ys)
  have c: "cmp x y = Inr (Num (k x - k y))" using Cons.prems(1) by simp
  show ?case
  proof (cases "k y < k x")
    case True
    obtain zs where zs: "insertBy cmp x ys = Inr zs" "mset zs = add_mset x (mset ys)"
      "sorted (map k zs)"
      using Cons.IH Cons.prems by auto
    have "set zs = insert x (set ys)"
      using zs(2) by (metis set_mset_add_mset_insert set_mset_mset)
    then have "sorted (map k (y # zs))"
      using zs(3) Cons.prems(2) True by auto
    then show ?thesis using True by (simp add: c zs)
  next
    case False
    then show ?thesis using Cons.prems(2) by (auto simp: c)
  qed
qed

lemma sortBy_sorted_key:
  fixes k :: "'a \<Rightarrow> int"
  assumes "\<And>x y. x \<in> set xs \<Longrightarrow> y \<in> set xs \<Longrightarrow> cmp x y = Inr (Num (k x - k y))"
  shows "\<exists>ys. sortBy cmp xs = Inr ys \<and> mset ys = mset xs \<and> sorted (map k ys)"
  using assms
proof (induction xs)
  case Nil
  show ?case by simp
next
  case (Cons x xs)
  obtain ys where ys: "sortBy cmp xs = Inr ys" "mset ys = mset xs" "sorted (map k ys)"
    using Cons.IH Cons.prems by (metis list.set_intros(2))
  have "set ys = set xs" using ys(2) by (metis set_mset_mset)
  then have "\<And>y. y \<in> set ys \<Longrightarrow> cmp x y = Inr (Num (k x - k y))"
    using Cons.prems by simp
  from insertBy_sorted_key [of ys cmp x k, OF this ys(3)]
  obtain zs where "insertBy cmp x ys = Inr zs" "mset zs = add_mset x (mset ys)"
    "sorted (map k zs)" by blast
  then show ?case by (simp add: ys)
qed

lemma mapE_total:
  assumes "\<And>x. x \<in> set xs \<Longrightarrow> f x = Inr (g x)"
  shows "mapE f xs = Inr (map g xs)"
  using assms by (induction xs) simp_all

lemma compareConferences_no_throw: "\<exists>v. compareConferences lc ao a b srt now = Inr v"
proof (cases "key srt = Default")
  case True
  then show ?thesis by (simp add: compareConferences_Default defaultCompare_cases)
next
  case False
  show ?thesis
  proof (cases "key srt = Area")
    case True
    then show ?thesis by (simp add: compareConferences_Area)
  next
    case notArea: False
    with False show ?thesis by (simp add: compareConferences_keyed)
  qed
qed

subsection \<open>Grouping\<close>

lemma getProperty_plain:
  assumes "plainLabel k"
  shows "getProperty m k = (case m k of Some v \<Rightarrow> Own v | None \<Rightarrow> Undefined)"
  using assms plainLabel_not_proto [OF assms] by (simp add: getProperty_def plainLabel_def)

lemma setProperty_plain: "plainLabel k \<Longrightarrow> setProperty m k v = m(k \<mapsto> v)"
  by (simp add: setProperty_def plainLabel_not_proto)

lemma map_of_push_existing:
  "map_of (map (\<lambda>(k', es). if k' = k then (k', es @ [c]) else (k', es)) acc) q =
     (case map_of acc q of None \<Rightarrow> None | Some es \<Rightarrow> Some (if q = k then es @ [c] else es))"
  by (induction acc) auto

lemma map_fst_push_existing:
  "map fst (map (\<lambda>(k', es). if k' = k then (k', es @ [c]) else (k', es)) acc) = map fst acc"
  by (induction acc) auto

lemma groupedOf_push:
  assumes "groupedOf acc xs" and "plainLabel (areaLabelFor c)"
  shows "\<exists>acc'. pushGrouped c acc = Inr acc' \<and> groupedOf acc' (xs @ [c])"
proof (cases "map_of acc (areaLabelFor c)")
  case None
  then have new: "areaLabelFor c \<notin> areaLabelFor ` set xs"
    using assms(1) by (auto simp: groupedOf_def split: if_splits)
  have notin: "areaLabelFor c \<notin> fst ` set acc"
    using None by (simp add: map_of_eq_None_iff)
  define acc' where "acc' = acc @ [(areaLabelFor c, [c])]"
  have p: "pushGrouped c acc = Inr acc'"
    using None
    by (simp add: pushGrouped_def lookupGroup_def getProperty_plain [OF assms(2)] acc'_def)
  have d: "distinct (map fst acc')"
    using assms(1) notin by (simp add: acc'_def groupedOf_def)
  have "map_of acc' q =
        (if q \<in> areaLabelFor ` set (xs @ [c])
         then Some (filter (\<lambda>c. areaLabelFor c = q) (xs @ [c])) else None)" for q
  proof (cases "q = areaLabelFor c")
    case True
    have "filter (\<lambda>c'. areaLabelFor c' = areaLabelFor c) xs = []"
      using new by (auto simp: filter_empty_conv image_iff)
    then show ?thesis
      using True None by (simp add: acc'_def map_add_def)
  next
    case False
    then show ?thesis
      using assms(1) by (auto simp: acc'_def map_add_def groupedOf_def split: option.splits)
  qed
  with d have "groupedOf acc' (xs @ [c])" by (simp only: groupedOf_def simp_thms)
  with p show ?thesis by blast
next
  case (Some es)
  define acc' where
    "acc' = map (\<lambda>(k', es). if k' = areaLabelFor c then (k', es @ [c]) else (k', es)) acc"
  have p: "pushGrouped c acc = Inr acc'"
    using Some
    by (simp add: pushGrouped_def lookupGroup_def getProperty_plain [OF assms(2)] acc'_def)
  have d: "distinct (map fst acc')"
    using assms(1) by (simp only: acc'_def map_fst_push_existing groupedOf_def)
  have "map_of acc' q =
        (if q \<in> areaLabelFor ` set (xs @ [c])
         then Some (filter (\<lambda>c. areaLabelFor c = q) (xs @ [c])) else None)" for q
  proof (cases "q = areaLabelFor c")
    case True
    have "map_of acc q = Some (filter (\<lambda>c'. areaLabelFor c' = q) xs)"
      using assms(1) Some True by (auto simp: groupedOf_def split: if_splits)
    then show ?thesis
      using True by (simp add: acc'_def map_of_push_existing)
  next
    case False
    have "map_of acc q = (if q \<in> areaLabelFor ` set xs
        then Some (filter (\<lambda>c. areaLabelFor c = q) xs) else None)"
      using assms(1) by (simp add: groupedOf_def)
    then show ?thesis
      using False by (auto simp: acc'_def map_of_push_existing)
  qed
  with d have "groupedOf acc' (xs @ [c])" by (simp only: groupedOf_def simp_thms)
  with p show ?thesis by blast
qed

lemma groupedOf_groupedFrom:
  assumes "groupedOf acc xs" and "\<forall>c \<in> set cs. plainLabel (areaLabelFor c)"
  shows "\<exists>g. groupedFrom cs acc = Inr g \<and> groupedOf g (xs @ cs)"
  using assms
proof (induction cs arbitrary: acc xs)
  case Nil
  then show ?case by simp
next
  case (Cons c cs)
  obtain acc' where acc': "pushGrouped c acc = Inr acc'" "groupedOf acc' (xs @ [c])"
    using groupedOf_push [OF Cons.prems(1), of c] Cons.prems(2) by auto
  obtain g where "groupedFrom cs acc' = Inr g" "groupedOf g ((xs @ [c]) @ cs)"
    using Cons.IH [OF acc'(2)] Cons.prems(2) by auto
  then show ?case by (simp add: acc'(1))
qed

text \<open>
  A catalogue of plain resolved labels is grouped without an exception, into one key for
  each label.
\<close>

lemma grouped_plain:
  assumes "\<forall>c \<in> set cs. plainLabel (areaLabelFor c)"
  shows "\<exists>g. grouped cs = Inr g \<and> groupedOf g cs"
proof -
  have "groupedOf [] []" by (simp add: groupedOf_def)
  from groupedOf_groupedFrom [OF this assms] show ?thesis by (simp add: grouped_def)
qed

text \<open>A resolved label that names an inherited member ends the reduction.\<close>

lemma grouped_inherited_example:
  "grouped [sampleConf ''AAA'' (Some ''AI'') None False,
            sampleConf ''CCC'' (Some ''constructor'') None False] = Inl TypeError"
  by code_simp

lemma map_of_groupedOf:
  assumes "groupedOf g cs"
  shows "map_of g q =
     (if q \<in> areaLabelFor ` set cs then Some (filter (\<lambda>c. areaLabelFor c = q) cs) else None)"
  using assms by (simp add: groupedOf_def)

lemma keys_groupedOf:
  assumes "groupedOf g cs"
  shows "set (map fst g) = areaLabelFor ` set cs"
proof -
  have "q \<in> fst ` set g \<longleftrightarrow> q \<in> areaLabelFor ` set cs" for q
    using map_of_groupedOf [OF assms, of q] map_of_eq_None_iff [of g q]
    by (auto split: if_splits)
  then show ?thesis by auto
qed

lemma distinct_keys_groupedOf: "groupedOf g cs \<Longrightarrow> distinct (map fst g)"
  by (simp add: groupedOf_def)

lemma mset_objectKeys: "mset (objectKeys g) = mset (map fst g)"
  by (simp add: objectKeys_def)

lemma set_objectKeys: "set (objectKeys g) = set (map fst g)"
  using mset_objectKeys [of g] by (metis set_mset_mset)

text \<open>
  With plain labels in AreaOrder and in the catalogue, the keys of the sections are the
  labels of \<open>areaOrder\<close>, of the extra areas and of the default bucket that some entry
  resolves to.
\<close>

lemma resolveAreaOrder_eq:
  assumes "groupedOf g cs" and "\<forall>l \<in> set ao. plainLabel l"
    and "\<forall>c \<in> set cs. plainLabel (areaLabelFor c)"
  shows "resolveAreaOrder ao g =
     filter (\<lambda>q. q \<in> areaLabelFor ` set cs)
       (ao @ filter (\<lambda>q. q \<notin> set ao) (objectKeys g) @ [''Other Conferences''])"
proof -
  have keys: "set (objectKeys g) = areaLabelFor ` set cs"
    using keys_groupedOf [OF assms(1)] by (simp only: set_objectKeys)
  have plain: "plainLabel q"
    if "q \<in> set (ao @ filter (\<lambda>q. q \<notin> set ao) (objectKeys g) @ [''Other Conferences''])" for q
    using that assms(2,3) keys plainLabel_Other by auto
  have "(case lookupGroup g q of
           Own es \<Rightarrow> length es \<noteq> 0
         | Inherited k \<Rightarrow> inheritedLength k \<noteq> 0
         | Undefined \<Rightarrow> False) \<longleftrightarrow> q \<in> areaLabelFor ` set cs"
    if "plainLabel q" for q
    using that
    by (auto simp: lookupGroup_def getProperty_plain map_of_groupedOf [OF assms(1)]
        filter_empty_conv)
  with plain show ?thesis
    unfolding resolveAreaOrder_def Let_def DEFAULT_AREA_ORDER_def
    by (intro filter_cong) auto
qed

lemma set_resolveAreaOrder:
  assumes "groupedOf g cs" and "\<forall>l \<in> set ao. plainLabel l"
    and "\<forall>c \<in> set cs. plainLabel (areaLabelFor c)"
  shows "set (resolveAreaOrder ao g) = areaLabelFor ` set cs"
proof -
  have keys: "set (objectKeys g) = areaLabelFor ` set cs"
    using keys_groupedOf [OF assms(1)] by (simp only: set_objectKeys)
  show ?thesis
    unfolding resolveAreaOrder_eq [OF assms] using keys by auto
qed

lemma count_resolveAreaOrder:
  assumes "groupedOf g cs" and "\<forall>l \<in> set ao. plainLabel l"
    and "\<forall>c \<in> set cs. plainLabel (areaLabelFor c)"
    and "distinct ao" and "q \<in> areaLabelFor ` set cs" and "q \<noteq> ''Other Conferences''"
  shows "count (mset (resolveAreaOrder ao g)) q = 1"
proof -
  have k: "q \<in> set (map fst g)"
    using assms(5) by (simp only: keys_groupedOf [OF assms(1)])
  have keys1: "count (mset (objectKeys g)) q = 1"
    using k distinct_keys_groupedOf [OF assms(1)]
    by (simp only: mset_objectKeys distinct_count_atmost_1 if_True)
  have "count (mset (resolveAreaOrder ao g)) q =
      count (mset ao) q + count (mset (filter (\<lambda>q. q \<notin> set ao) (objectKeys g))) q"
    using assms(5,6) by (simp add: resolveAreaOrder_eq [OF assms(1-3)] del: set_map)
  also have "\<dots> = 1"
  proof (cases "q \<in> set ao")
    case True
    then have "count (mset ao) q = 1"
      using assms(4) by (simp add: distinct_count_atmost_1)
    then show ?thesis using True by (simp del: set_map)
  next
    case False
    then show ?thesis using keys1 by (simp add: count_mset_0_iff del: set_map)
  qed
  finally show ?thesis .
qed

subsection \<open>The sectioned view\<close>

lemma sortGroups_total:
  assumes "\<And>x y. \<exists>v. cmp x y = Inr v" and "\<forall>q \<in> set ks. plainLabel q"
  shows "\<exists>clone. sortGroups cmp g ks m = Inr clone
           \<and> (\<forall>q \<in> set ks. \<exists>es. clone q = Some es
                  \<and> mset es = mset (case map_of g q of Some es \<Rightarrow> es | None \<Rightarrow> []))"
proof -
  have "\<exists>clone. sortGroups cmp g ks m = Inr clone
           \<and> (\<forall>q. q \<notin> set ks \<longrightarrow> clone q = m q)
           \<and> (\<forall>q \<in> set ks. \<exists>es. clone q = Some es
                  \<and> mset es = mset (case map_of g q of Some es \<Rightarrow> es | None \<Rightarrow> []))"
    using assms(2)
  proof (induction ks arbitrary: m)
    case Nil
    show ?case by simp
  next
    case (Cons k ks)
    have pk: "plainLabel k" using Cons.prems by simp
    define entries where "entries = (case map_of g k of Some es \<Rightarrow> es | None \<Rightarrow> [])"
    obtain sorted_entries where se: "sortBy cmp entries = Inr sorted_entries"
      "mset sorted_entries = mset entries"
      using sortBy_total [of cmp entries] assms(1) by blast
    obtain clone where clone: "sortGroups cmp g ks (m(k \<mapsto> sorted_entries)) = Inr clone"
      "\<forall>q. q \<notin> set ks \<longrightarrow> clone q = (m(k \<mapsto> sorted_entries)) q"
      "\<forall>q \<in> set ks. \<exists>es. clone q = Some es
         \<and> mset es = mset (case map_of g q of Some es \<Rightarrow> es | None \<Rightarrow> [])"
    proof -
      have "\<forall>q \<in> set ks. plainLabel q" using Cons.prems by simp
      from Cons.IH [OF this, of "m(k \<mapsto> sorted_entries)"] that show ?thesis by blast
    qed
    have run: "sortGroups cmp g (k # ks) m = Inr clone"
    proof (cases "map_of g k")
      case None
      then have "entries = []" by (simp add: entries_def)
      with se(1) have "sortBy cmp [] = Inr sorted_entries" by simp
      then show ?thesis
        using None clone(1)
        by (simp add: lookupGroup_def getProperty_plain [OF pk] setProperty_plain [OF pk]
            del: sortBy.simps)
    next
      case (Some es)
      then have "entries = es" by (simp add: entries_def)
      with se(1) have "sortBy cmp es = Inr sorted_entries" by simp
      then show ?thesis
        using Some clone(1)
        by (simp add: lookupGroup_def getProperty_plain [OF pk] setProperty_plain [OF pk])
    qed
    have k: "\<exists>es. clone k = Some es
        \<and> mset es = mset (case map_of g k of Some es \<Rightarrow> es | None \<Rightarrow> [])"
    proof (cases "k \<in> set ks")
      case True
      then show ?thesis using clone(3) by blast
    next
      case False
      then have "clone k = Some sorted_entries" using clone(2) by simp
      then show ?thesis using se(2) by (simp add: entries_def)
    qed
    have "\<forall>q. q \<notin> set (k # ks) \<longrightarrow> clone q = m q"
      using clone(2) by simp
    moreover have "\<forall>q \<in> set (k # ks). \<exists>es. clone q = Some es
        \<and> mset es = mset (case map_of g q of Some es \<Rightarrow> es | None \<Rightarrow> [])"
      using k clone(3) by simp
    ultimately show ?case using run by blast
  qed
  then show ?thesis by blast
qed

lemma sectioned_sections:
  assumes "\<forall>l \<in> set ao. plainLabel l" and "\<forall>c \<in> set cs. plainLabel (areaLabelFor c)"
  shows "\<exists>g secs. grouped cs = Inr g \<and> groupedOf g cs
     \<and> sectioned lc ao cs srt now = Inr secs
     \<and> map fst secs = resolveAreaOrder ao g
     \<and> (\<forall>s \<in> set secs. mset (snd s) = mset (filter (\<lambda>c. areaLabelFor c = fst s) cs))"
proof -
  obtain g where g: "grouped cs = Inr g" "groupedOf g cs"
    using grouped_plain [OF assms(2)] by blast
  define keys where "keys = resolveAreaOrder ao g"
  have labels: "set keys = areaLabelFor ` set cs"
    unfolding keys_def by (rule set_resolveAreaOrder [OF g(2) assms])
  have plain: "\<forall>q \<in> set keys. plainLabel q"
    using labels assms(2) by auto
  obtain clone where clone: "sortGroups (\<lambda>a b. compareConferences lc ao a b srt now) g keys
        Map.empty = Inr clone"
    "\<forall>q \<in> set keys. \<exists>es. clone q = Some es
       \<and> mset es = mset (case map_of g q of Some es \<Rightarrow> es | None \<Rightarrow> [])"
    using sortGroups_total [of "\<lambda>a b. compareConferences lc ao a b srt now" keys g Map.empty]
      compareConferences_no_throw plain
    by blast
  define secs where
    "secs = map (\<lambda>q. (q, case clone q of Some es \<Rightarrow> es | None \<Rightarrow> [])) keys"
  have "mapE (\<lambda>ar. case getProperty clone ar of
                      Own es \<Rightarrow> Inr (ar, es)
                    | Undefined \<Rightarrow> Inr (ar, [])
                    | Inherited _ \<Rightarrow> Inl TypeError) keys = Inr secs"
    unfolding secs_def
  proof (rule mapE_total)
    fix q
    assume "q \<in> set keys"
    then have "plainLabel q" using plain by blast
    then show "(case getProperty clone q of
                  Own es \<Rightarrow> Inr (q, es)
                | Undefined \<Rightarrow> Inr (q, [])
                | Inherited _ \<Rightarrow> Inl TypeError)
        = (Inr (q, case clone q of Some es \<Rightarrow> es | None \<Rightarrow> [])
            :: error + string \<times> Conference list)"
      by (simp add: getProperty_plain split: option.splits)
  qed
  then have run: "sectioned lc ao cs srt now = Inr secs"
    by (simp add: sectioned_def areaKeys_def sortedByArea_def g(1) clone(1) flip: keys_def)
  have keys: "map fst secs = resolveAreaOrder ao g"
    by (simp add: secs_def comp_def keys_def)
  have "mset (snd s) = mset (filter (\<lambda>c. areaLabelFor c = fst s) cs)" if "s \<in> set secs" for s
  proof -
    from that obtain q where q: "q \<in> set keys"
      and s: "s = (q, case clone q of Some es \<Rightarrow> es | None \<Rightarrow> [])"
      by (auto simp: secs_def)
    obtain es where es: "clone q = Some es"
      "mset es = mset (case map_of g q of Some es \<Rightarrow> es | None \<Rightarrow> [])"
      using clone(2) q by blast
    have "q \<in> areaLabelFor ` set cs"
      using q by (simp only: labels)
    then have "map_of g q = Some (filter (\<lambda>c. areaLabelFor c = q) cs)"
      by (simp add: map_of_groupedOf [OF g(2)])
    then show ?thesis using es by (simp add: s)
  qed
  with g run keys show ?thesis by blast
qed

lemma count_concat_sections:
  assumes "\<forall>s \<in> set secs. mset (snd s) = mset (filter (\<lambda>c. areaLabelFor c = fst s) cs)"
  shows "count (mset (concat (map snd secs))) c =
           count (mset (map fst secs)) (areaLabelFor c) * count (mset cs) c"
  using assms
proof (induction secs)
  case Nil
  show ?case by simp
next
  case (Cons s secs)
  have "count (mset (snd s)) c = (if areaLabelFor c = fst s then count (mset cs) c else 0)"
    using Cons.prems by simp
  then show ?case using Cons by simp
qed

text \<open>
  Claim C6, as the code has it. With no label twice in AreaOrder, and with plain labels
  (none naming a member of \<^verbatim>\<open>Object.prototype\<close>) in AreaOrder and for the resolved areas
  of the catalogue, the sectioned view is rendered for every sort state and \<open>now\<close>, and:
  each section holds exactly the catalogue entries whose resolved area label (the entry's
  own label, or the default bucket's name when it has none) is the section's label, so an
  entry whose label is not in AreaOrder is shown under its own label; every catalogue
  entry is shown; and every entry whose resolved label is not the default bucket's is
  shown as often as it occurs in the catalogue, once when the catalogue lists it once.
\<close>

theorem sectioned_view_groups:
  assumes "distinct ao" and "\<forall>l \<in> set ao. plainLabel l"
    and "\<forall>c \<in> set cs. plainLabel (areaLabelFor c)"
  shows "\<exists>secs. sectioned lc ao cs srt now = Inr secs
     \<and> (\<forall>s \<in> set secs. mset (snd s) = mset (filter (\<lambda>c. areaLabelFor c = fst s) cs))
     \<and> set (concat (map snd secs)) = set cs
     \<and> (\<forall>c. areaLabelFor c \<noteq> ''Other Conferences'' \<longrightarrow>
           count (mset (concat (map snd secs))) c = count (mset cs) c)"
proof -
  obtain g secs where g: "groupedOf g cs"
    and secs: "sectioned lc ao cs srt now = Inr secs"
    "map fst secs = resolveAreaOrder ao g"
    "\<forall>s \<in> set secs. mset (snd s) = mset (filter (\<lambda>c. areaLabelFor c = fst s) cs)"
    using sectioned_sections [OF assms(2,3)] by blast
  note cnt = count_concat_sections [OF secs(3)]
  have once: "count (mset (concat (map snd secs))) c = count (mset cs) c"
    if "areaLabelFor c \<noteq> ''Other Conferences''" for c
  proof (cases "c \<in> set cs")
    case True
    then have "areaLabelFor c \<in> areaLabelFor ` set cs" by simp
    from count_resolveAreaOrder [OF g assms(2,3,1) this that] show ?thesis
      by (simp add: cnt secs(2))
  next
    case False
    then have "count (mset cs) c = 0" by (simp add: count_mset_0_iff)
    then show ?thesis by (simp add: cnt)
  qed
  have "c \<in> set (concat (map snd secs)) \<longleftrightarrow> c \<in> set cs" for c
  proof
    assume "c \<in> set (concat (map snd secs))"
    then have "count (mset (concat (map snd secs))) c \<noteq> 0"
      by (simp add: count_mset_0_iff)
    then have "count (mset cs) c \<noteq> 0" by (simp add: cnt)
    then show "c \<in> set cs" by (simp add: count_mset_0_iff)
  next
    assume c: "c \<in> set cs"
    then have "areaLabelFor c \<in> set (map fst secs)"
      by (simp only: secs(2) set_resolveAreaOrder [OF g assms(2,3)]) simp
    then have "count (mset (map fst secs)) (areaLabelFor c) \<noteq> 0"
      by (simp only: count_mset_0_iff not_not)
    moreover have "count (mset cs) c \<noteq> 0" using c by (simp add: count_mset_0_iff)
    ultimately have "count (mset (concat (map snd secs))) c \<noteq> 0"
      by (simp add: cnt)
    then show "c \<in> set (concat (map snd secs))"
      by (simp only: count_mset_0_iff not_not set_mset_mset)
  qed
  then have "set (concat (map snd secs)) = set cs" by blast
  with secs(1,3) once show ?thesis by blast
qed

theorem sectioned_view_groups_witness:
  "\<exists>secs. sectioned ordinalCompare [''AI'']
        [sampleConf ''ZZZ'' (Some ''Zed'') None False, sampleConf ''AAA'' (Some ''AI'') None True]
        \<lparr>key = Acronym, direction = Asc\<rparr> 0 = Inr secs
     \<and> (\<forall>s \<in> set secs. mset (snd s) =
           mset (filter (\<lambda>c. areaLabelFor c = fst s)
             [sampleConf ''ZZZ'' (Some ''Zed'') None False,
              sampleConf ''AAA'' (Some ''AI'') None True]))
     \<and> set (concat (map snd secs)) =
         set [sampleConf ''ZZZ'' (Some ''Zed'') None False,
              sampleConf ''AAA'' (Some ''AI'') None True]
     \<and> count (mset (concat (map snd secs))) (sampleConf ''ZZZ'' (Some ''Zed'') None False) = 1"
proof -
  define cs where "cs =
    [sampleConf ''ZZZ'' (Some ''Zed'') None False, sampleConf ''AAA'' (Some ''AI'') None True]"
  have d: "distinct [''AI'']" by simp
  have a: "\<forall>l \<in> set [''AI'']. plainLabel l" by code_simp
  have c: "\<forall>c \<in> set cs. plainLabel (areaLabelFor c)"
    unfolding cs_def by code_simp
  have z: "areaLabelFor (sampleConf ''ZZZ'' (Some ''Zed'') None False) \<noteq> ''Other Conferences''"
    by (simp add: areaLabelFor_def sampleConf_def)
  have n: "count (mset cs) (sampleConf ''ZZZ'' (Some ''Zed'') None False) = 1"
    by (simp add: cs_def sampleConf_def)
  from sectioned_view_groups [OF d a c, of ordinalCompare "\<lparr>key = Acronym, direction = Asc\<rparr>" 0]
  obtain secs where secs: "sectioned ordinalCompare [''AI''] cs
        \<lparr>key = Acronym, direction = Asc\<rparr> 0 = Inr secs"
    "\<forall>s \<in> set secs. mset (snd s) = mset (filter (\<lambda>c. areaLabelFor c = fst s) cs)"
    "set (concat (map snd secs)) = set cs"
    "\<forall>c. areaLabelFor c \<noteq> ''Other Conferences'' \<longrightarrow>
        count (mset (concat (map snd secs))) c = count (mset cs) c"
    by blast
  from secs(4) z n
  have "count (mset (concat (map snd secs))) (sampleConf ''ZZZ'' (Some ''Zed'') None False) = 1"
    by simp
  with secs(1-3) show ?thesis unfolding cs_def by blast
qed

text \<open>
  The claim as stated fails: an entry whose area is not in AreaOrder is shown in a section
  of its own label, not in the default bucket.
\<close>

theorem sectioned_view_unlisted_counterexample:
  "area (sampleConf ''ZZZ'' (Some ''Zed'') None False) = Some ''Zed''
   \<and> ''Zed'' \<notin> set [''AI'']
   \<and> sectioned ordinalCompare [''AI'']
        [sampleConf ''ZZZ'' (Some ''Zed'') None False, sampleConf ''AAA'' (Some ''AI'') None True]
        \<lparr>key = Default, direction = Asc\<rparr> 0
     = Inr [(''AI'', [sampleConf ''AAA'' (Some ''AI'') None True]),
            (''Zed'', [sampleConf ''ZZZ'' (Some ''Zed'') None False])]"
  by code_simp

text \<open>
  The default bucket itself: \<^verbatim>\<open>resolveAreaOrder\<close> lists its name among the extra areas
  (it is a key of \<^verbatim>\<open>grouped\<close> and not in AreaOrder) and once more from
  \<^verbatim>\<open>DEFAULT_AREA_ORDER\<close>, so the section of the entries without area is rendered twice.
\<close>

lemma sectioned_view_default_bucket_twice:
  "sectioned ordinalCompare [''AI'']
        [sampleConf ''TTT'' None None False, sampleConf ''AAA'' (Some ''AI'') None True]
        \<lparr>key = Default, direction = Asc\<rparr> 0
     = Inr [(''AI'', [sampleConf ''AAA'' (Some ''AI'') None True]),
            (''Other Conferences'', [sampleConf ''TTT'' None None False]),
            (''Other Conferences'', [sampleConf ''TTT'' None None False])]"
  by code_simp

text \<open>
  Labels that are not plain: an entry whose area names an inherited member ends the
  grouping, and so does a label of AreaOrder that names an inherited function with
  parameters, which passes the filter of \<^verbatim>\<open>resolveAreaOrder\<close> and cannot be spread.
  Extra areas that are array indices come first among the extra areas.
\<close>

lemma sectioned_view_inherited_examples:
  "sectioned ordinalCompare [''AI'']
     [sampleConf ''CCC'' (Some ''constructor'') None False] \<lparr>key = Default, direction = Asc\<rparr> 0
     = Inl TypeError"
  "sectioned ordinalCompare [''AI'', ''hasOwnProperty'']
     [sampleConf ''AAA'' (Some ''AI'') None False] \<lparr>key = Default, direction = Asc\<rparr> 0
     = Inl TypeError"
  "areaKeys [''AI'']
     [sampleConf ''BBB'' (Some ''zeta'') None False, sampleConf ''CCC'' (Some ''10'') None False,
      sampleConf ''DDD'' (Some ''9'') None False, sampleConf ''EEE'' (Some ''07'') None False]
     = Inr [''9'', ''10'', ''zeta'', ''07'']"
  by code_simp+

subsection \<open>The upcoming projection\<close>

lemma upcoming_dated:
  "mapE (\<lambda>conf. case deadline conf of
                   Some dl \<Rightarrow> Inr (conf, getNextOccurrence dl now)
                 | None \<Rightarrow> Inl TypeError)
        (filter (\<lambda>conf. deadline conf \<noteq> None \<and> \<not> isRolling conf) cs)
     = Inr (map (\<lambda>c. (c, resolvedInstant c now)) (filter hasUsableDeadline cs))"
proof -
  have f: "(\<lambda>conf. deadline conf \<noteq> None \<and> \<not> isRolling conf) = hasUsableDeadline"
    by (rule ext) (simp only: hasUsableDeadline_def)
  show ?thesis
    unfolding f
    by (rule mapE_total) (auto simp: hasUsableDeadline_def resolvedInstant_def)
qed

lemma Home_total:
  assumes "upcoming cs (st_now st) = Inr up"
    and "\<forall>l \<in> set ao. plainLabel l" and "\<forall>c \<in> set cs. plainLabel (areaLabelFor c)"
  shows "\<exists>page. Home lc ao cs st = Inr page \<and> nextUp page = up"
proof -
  obtain secs where secs: "sectioned lc ao cs (st_sort st) (st_now st) = Inr secs"
    using sectioned_sections [OF assms(2,3)] by blast
  obtain rows where rows: "combinedRows lc ao cs (st_sort st) (st_now st) = Inr rows"
    unfolding combinedRows_def
    using sortBy_total
      [of "\<lambda>a b. compareConferences lc ao (fst a) (fst b) (st_sort st) (st_now st)"]
      compareConferences_no_throw
    by blast
  show ?thesis by (simp add: Home_def secs rows assms(1))
qed

text \<open>
  Claim C7. The catalogue is taken to be well formed at \<open>now\<close>: every entry has a plain
  area label and, when it is not rolling and has a deadline, a deadline that resolves at
  \<open>now\<close> to an instant. Then the upcoming projection is computed and holds four of the
  entries that are non-rolling and have a deadline (all of them when there are fewer than
  four), each with its resolved next-occurrence instant; its instants are in ascending
  order, equal instants side by side; every such entry left out resolves no earlier than
  every entry in the projection; and, when the labels of AreaOrder are plain as well, the
  page is rendered and shows this same list for every sort state and view mode.
\<close>

theorem upcoming_nearest_four:
  assumes "\<forall>c \<in> set cs. wellFormed c now"
  shows "\<exists>up rest. upcoming cs now = Inr up
     \<and> length up = min 4 (length (filter hasUsableDeadline cs))
     \<and> mset (up @ rest) =
         mset (map (\<lambda>c. (c, resolvedInstant c now)) (filter hasUsableDeadline cs))
     \<and> (\<exists>ts. map snd up = map Some ts \<and> sorted ts)
     \<and> (\<forall>x \<in> set up. \<forall>y \<in> set rest. \<exists>tx ty. snd x = Some tx \<and> snd y = Some ty \<and> tx \<le> ty)
     \<and> ((\<forall>l \<in> set ao. plainLabel l) \<longrightarrow>
          (\<forall>st. st_now st = now \<longrightarrow>
             (\<exists>page. Home lc ao cs st = Inr page \<and> nextUp page = up)))"
proof -
  define dated where
    "dated = map (\<lambda>c. (c, resolvedInstant c now)) (filter hasUsableDeadline cs)"
  define k :: "Conference \<times> Date \<Rightarrow> int" where "k = (\<lambda>p. the (snd p))"
  have some: "snd p = Some (k p)" if "p \<in> set dated" for p
  proof -
    from that obtain c where c: "c \<in> set cs" "hasUsableDeadline c"
      and p: "p = (c, resolvedInstant c now)"
      by (auto simp: dated_def)
    obtain t where "resolvedInstant c now = Some t"
      using wellFormed_resolvedInstant [of c now] assms c by blast
    then show ?thesis by (simp add: p k_def)
  qed
  have bound: "\<bar>k p\<bar> \<le> 300000000000000" if "p \<in> set dated" for p
  proof -
    from that obtain c where p: "p = (c, resolvedInstant c now)"
      by (auto simp: dated_def)
    have "resolvedInstant c now = Some (k p)"
      using some [OF that] by (simp add: p)
    then show ?thesis by (rule resolvedInstant_range)
  qed
  have cmp: "Inr (num_sub (getTime (snd x)) (getTime (snd y))) =
        (Inr (Num (k x - k y)) :: error + number)"
    if "x \<in> set dated" and "y \<in> set dated" for x y
  proof -
    have "\<bar>k x - k y\<bar> \<le> 9007199254740992"
      using bound [OF that(1)] bound [OF that(2)] by linarith
    then show ?thesis
      using some [OF that(1)] some [OF that(2)] by (simp add: toDouble_exact)
  qed
  obtain ys where ys: "sortBy (\<lambda>a b. Inr (num_sub (getTime (snd a)) (getTime (snd b)))) dated
        = Inr ys" "mset ys = mset dated" "sorted (map k ys)"
    using sortBy_sorted_key
      [of dated "\<lambda>a b. Inr (num_sub (getTime (snd a)) (getTime (snd b)))" k] cmp
    by blast
  have run: "upcoming cs now = Inr (take 4 ys)"
    unfolding upcoming_def upcoming_dated dated_def [symmetric]
    by (simp only: ys(1) sum.case)
  have sets: "set ys = set dated"
    using ys(2) by (metis set_mset_mset)
  have len: "length ys = length dated"
    using ys(2) by (metis size_mset)
  have l: "length (take 4 ys) = min 4 (length (filter hasUsableDeadline cs))"
    by (simp add: len dated_def min.commute)
  have m: "mset (take 4 ys @ drop 4 ys) =
      mset (map (\<lambda>c. (c, resolvedInstant c now)) (filter hasUsableDeadline cs))"
    using ys(2) by (simp add: dated_def)
  have split: "sorted (map k (take 4 ys) @ map k (drop 4 ys))"
    using ys(3) by (simp flip: map_append)
  have s1: "sorted (map k (take 4 ys))"
    using split by (simp only: sorted_append)
  have "map snd (take 4 ys) = map Some (map k (take 4 ys))"
  proof -
    have "snd p = Some (k p)" if "p \<in> set (take 4 ys)" for p
      using that some sets by (metis in_set_takeD)
    then show ?thesis by (simp add: comp_def)
  qed
  with s1 have s: "\<exists>ts. map snd (take 4 ys) = map Some ts \<and> sorted ts" by blast
  have cross: "\<exists>tx ty. snd x = Some tx \<and> snd y = Some ty \<and> tx \<le> ty"
    if "x \<in> set (take 4 ys)" and "y \<in> set (drop 4 ys)" for x y
  proof -
    have "k x \<le> k y"
      using split that by (auto simp: sorted_append)
    moreover have "snd x = Some (k x)"
      using that(1) some sets by (metis in_set_takeD)
    moreover have "snd y = Some (k y)"
      using that(2) some sets by (metis in_set_dropD)
    ultimately show ?thesis by blast
  qed
  have labels: "\<forall>c \<in> set cs. plainLabel (areaLabelFor c)"
    using assms wellFormed_plainLabel by blast
  have page: "\<exists>page. Home lc ao cs st = Inr page \<and> nextUp page = take 4 ys"
    if "\<forall>l \<in> set ao. plainLabel l" and "st_now st = now" for st
    by (rule Home_total) (simp_all add: that run labels)
  from run l m s cross page show ?thesis by blast
qed

theorem upcoming_nearest_four_witness:
  "\<exists>up rest. upcoming
        [sampleConf ''EEE'' None (Some (sampleDeadline 5 1 ''Z'')) False,
         sampleConf ''RRR'' None (Some (sampleDeadline 1 1 ''Z'')) True,
         sampleConf ''DDD'' None (Some (sampleDeadline 4 1 ''Z'')) False,
         sampleConf ''AAA'' None (Some (sampleDeadline 1 2 ''Z'')) False,
         sampleConf ''CCC'' None (Some (sampleDeadline 3 1 ''Z'')) False,
         sampleConf ''BBB'' None (Some (sampleDeadline 2 1 ''Z'')) False] 0 = Inr up
     \<and> length up = 4
     \<and> (\<exists>ts. map snd up = map Some ts \<and> sorted ts)
     \<and> (\<exists>page. Home ordinalCompare [''AI'']
        [sampleConf ''EEE'' None (Some (sampleDeadline 5 1 ''Z'')) False,
         sampleConf ''RRR'' None (Some (sampleDeadline 1 1 ''Z'')) True,
         sampleConf ''DDD'' None (Some (sampleDeadline 4 1 ''Z'')) False,
         sampleConf ''AAA'' None (Some (sampleDeadline 1 2 ''Z'')) False,
         sampleConf ''CCC'' None (Some (sampleDeadline 3 1 ''Z'')) False,
         sampleConf ''BBB'' None (Some (sampleDeadline 2 1 ''Z'')) False]
        \<lparr>st_now = 0, st_viewMode = Sectioned, st_sort = \<lparr>key = Location, direction = Desc\<rparr>\<rparr>
        = Inr page \<and> nextUp page = up)"
proof -
  define cs where "cs =
        [sampleConf ''EEE'' None (Some (sampleDeadline 5 1 ''Z'')) False,
         sampleConf ''RRR'' None (Some (sampleDeadline 1 1 ''Z'')) True,
         sampleConf ''DDD'' None (Some (sampleDeadline 4 1 ''Z'')) False,
         sampleConf ''AAA'' None (Some (sampleDeadline 1 2 ''Z'')) False,
         sampleConf ''CCC'' None (Some (sampleDeadline 3 1 ''Z'')) False,
         sampleConf ''BBB'' None (Some (sampleDeadline 2 1 ''Z'')) False]"
  have wf: "\<forall>c \<in> set cs. wellFormed c 0"
    unfolding cs_def by code_simp
  have ao: "\<forall>l \<in> set [''AI'']. plainLabel l" by code_simp
  have n: "min 4 (length (filter hasUsableDeadline cs)) = 4"
    by (simp add: cs_def hasUsableDeadline_def sampleConf_def)
  have now: "st_now \<lparr>st_now = 0, st_viewMode = Sectioned,
      st_sort = \<lparr>key = Location, direction = Desc\<rparr>\<rparr> = 0"
    by simp
  from upcoming_nearest_four [OF wf, of "[''AI'']" ordinalCompare] ao now
  have "\<exists>up rest. upcoming cs 0 = Inr up
     \<and> length up = min 4 (length (filter hasUsableDeadline cs))
     \<and> (\<exists>ts. map snd up = map Some ts \<and> sorted ts)
     \<and> (\<exists>page. Home ordinalCompare [''AI''] cs
        \<lparr>st_now = 0, st_viewMode = Sectioned, st_sort = \<lparr>key = Location, direction = Desc\<rparr>\<rparr>
        = Inr page \<and> nextUp page = up)"
    by blast
  then show ?thesis unfolding n unfolding cs_def by blast
qed

text \<open>The projection on a catalogue of five dated entries and one rolling entry.\<close>

lemma upcoming_example:
  "upcoming
     [sampleConf ''EEE'' None (Some (sampleDeadline 5 1 ''Z'')) False,
      sampleConf ''RRR'' None (Some (sampleDeadline 1 1 ''Z'')) True,
      sampleConf ''DDD'' None (Some (sampleDeadline 4 1 ''Z'')) False,
      sampleConf ''AAA'' None (Some (sampleDeadline 1 2 ''Z'')) False,
      sampleConf ''CCC'' None (Some (sampleDeadline 3 1 ''Z'')) False,
      sampleConf ''BBB'' None (Some (sampleDeadline 2 1 ''Z'')) False] 0
   = Inr [(sampleConf ''AAA'' None (Some (sampleDeadline 1 2 ''Z'')) False, Some 86400000),
          (sampleConf ''BBB'' None (Some (sampleDeadline 2 1 ''Z'')) False, Some 2678400000),
          (sampleConf ''CCC'' None (Some (sampleDeadline 3 1 ''Z'')) False, Some 5097600000),
          (sampleConf ''DDD'' None (Some (sampleDeadline 4 1 ''Z'')) False, Some 7776000000)]"
  by code_simp

section \<open>Valid deadlines and the year boundary\<close>

subsection \<open>The date-time string\<close>

lemma digit_cases:
  "(k::nat) < 10 \<Longrightarrow>
     k = 0 \<or> k = 1 \<or> k = 2 \<or> k = 3 \<or> k = 4 \<or> k = 5 \<or> k = 6 \<or> k = 7 \<or> k = 8 \<or> k = 9"
  by presburger

lemma digitVal_digit: "k < 10 \<Longrightarrow> digitVal (''0123456789'' ! k) = Some k"
  using digit_cases [of k] by (auto simp: digitVal_def)

lemma parseDigits_snoc:
  "parseDigits acc (xs @ [c]) =
     (case parseDigits acc xs of
        None \<Rightarrow> None
      | Some v \<Rightarrow> (case digitVal c of None \<Rightarrow> None | Some d \<Rightarrow> Some (10 * v + d)))"
  by (induction xs arbitrary: acc) (auto split: option.splits)

lemma parseDigits_digits: "parseDigits 0 (digits n) = Some n"
proof (induction n rule: digits.induct)
  case (1 n)
  show ?case
  proof (cases "n < 10")
    case True
    then show ?thesis by (simp add: digits.simps [of n] digitVal_digit)
  next
    case False
    have "parseDigits 0 (digits (n div 10)) = Some (n div 10)"
      using 1 False by simp
    then show ?thesis
      using False by (simp add: digits.simps [of n] parseDigits_snoc digitVal_digit)
  qed
qed

lemma length_digits_1: "n < 10 \<Longrightarrow> length (digits n) = 1"
  by (simp add: digits.simps [of n])

lemma length_digits_2: "10 \<le> n \<Longrightarrow> n < 100 \<Longrightarrow> length (digits n) = 2"
  by (simp add: digits.simps [of n] length_digits_1)

lemma length_digits_3: "100 \<le> n \<Longrightarrow> n < 1000 \<Longrightarrow> length (digits n) = 3"
  by (simp add: digits.simps [of n] length_digits_2)

lemma length_digits_4: "1000 \<le> n \<Longrightarrow> n < 10000 \<Longrightarrow> length (digits n) = 4"
  by (simp add: digits.simps [of n] length_digits_3)

lemma year_field:
  assumes "1000 \<le> y" and "y \<le> 9999"
  shows "length (toString y) = 4" and "parseField 4 (toString y) = Some (nat y)"
proof -
  have t: "toString y = digits (nat y)" using assms by (simp add: toString_def)
  show "length (toString y) = 4"
    unfolding t using assms by (intro length_digits_4) simp_all
  then show "parseField 4 (toString y) = Some (nat y)"
    by (simp add: parseField_def) (simp add: t parseDigits_digits)
qed

lemma pad_field:
  assumes "0 \<le> v" and "v \<le> 99"
  shows "length (pad v) = 2" and "parseField 2 (pad v) = Some (nat v)"
proof -
  have t: "toString v = digits (nat v)" using assms by (simp add: toString_def)
  have p: "pad v = (if v < 10 then CHR ''0'' # digits (nat v) else digits (nat v))"
  proof (cases "v < 10")
    case True
    then have "length (digits (nat v)) = 1" using assms by (intro length_digits_1) simp
    then show ?thesis using True by (simp add: pad_def padStart2_def t)
  next
    case False
    then have "length (digits (nat v)) = 2" using assms by (intro length_digits_2) simp_all
    then show ?thesis using False by (simp add: pad_def padStart2_def t)
  qed
  show l: "length (pad v) = 2"
  proof (cases "v < 10")
    case True
    then have "length (digits (nat v)) = 1" using assms by (intro length_digits_1) simp
    then show ?thesis using True by (simp add: p)
  next
    case False
    then have "length (digits (nat v)) = 2" using assms by (intro length_digits_2) simp_all
    then show ?thesis using False by (simp add: p)
  qed
  have z: "digitVal CHR ''0'' = Some 0" by (simp add: digitVal_def)
  have "parseDigits 0 (pad v) = Some (nat v)"
    by (simp add: p z parseDigits_digits)
  with l show "parseField 2 (pad v) = Some (nat v)" by (simp add: parseField_def)
qed


lemma list_of_length_2: "length s = 2 \<Longrightarrow> \<exists>a b. s = [a, b]"
  by (auto simp: length_Suc_conv numeral_2_eq_2)

lemma list_of_length_4: "length s = 4 \<Longrightarrow> \<exists>a b c d. s = [a, b, c, d]"
proof -
  assume "length s = 4"
  then have "length s = Suc (Suc (Suc (Suc 0)))" by simp
  then show ?thesis by (auto simp: length_Suc_conv)
qed

lemma parseDate_layout:
  assumes "length Y = 4" and "length Mo = 2" and "length D = 2" and "length H = 2"
    and "length Mi = 2"
  shows "parseDate (Y @ ''-'' @ Mo @ ''-'' @ D @ ''T'' @ H @ '':'' @ Mi @ '':00'' @ off) =
     (case (parseField 4 Y, parseField 2 Mo, parseField 2 D, parseField 2 H,
            parseField 2 Mi, parseOffset off) of
        (Some y, Some mo, Some d, Some h, Some mi, Some off') \<Rightarrow>
          if 1 \<le> mo \<and> mo \<le> 12 \<and> 1 \<le> d \<and> int d \<le> monthLengths (int y) ! (mo - 1)
             \<and> h \<le> 23 \<and> mi \<le> 59
          then Some (MakeDay (int y) mo d * msPerDay + (int h * 60 + int mi) * 60000
                     - off' * 60000)
          else None
      | _ \<Rightarrow> None)"
proof -
  obtain y1 y2 y3 y4 where Y: "Y = [y1, y2, y3, y4]"
    using list_of_length_4 [OF assms(1)] by blast
  obtain m1 m2 where Mo: "Mo = [m1, m2]" using list_of_length_2 [OF assms(2)] by blast
  obtain d1 d2 where D: "D = [d1, d2]" using list_of_length_2 [OF assms(3)] by blast
  obtain h1 h2 where H: "H = [h1, h2]" using list_of_length_2 [OF assms(4)] by blast
  obtain n1 n2 where Mi: "Mi = [n1, n2]" using list_of_length_2 [OF assms(5)] by blast
  have z: "parseField 2 ''00'' = Some 0"
    by (simp add: parseField_def digitVal_def)
  show ?thesis
    unfolding Y Mo D H Mi
    by (auto simp: parseDate_def z split: option.splits)
qed


text \<open>
  The instant built for a four-digit year from fields of at most two digits: the string is
  of the format exactly when the fields are in range and the day exists in the month.
\<close>

lemma buildDate_fields:
  assumes "1000 \<le> y" and "y \<le> 9999"
    and "0 \<le> month dl" and "month dl \<le> 99" and "0 \<le> day dl" and "day dl \<le> 99"
    and "0 \<le> hour dl" and "hour dl \<le> 99" and "0 \<le> minute dl" and "minute dl \<le> 99"
  shows "buildDate dl y =
     (case parseOffset (offset dl) of
        None \<Rightarrow> None
      | Some off \<Rightarrow>
          if 1 \<le> month dl \<and> month dl \<le> 12 \<and> 1 \<le> day dl
             \<and> day dl \<le> monthLengths y ! (nat (month dl) - 1)
             \<and> hour dl \<le> 23 \<and> minute dl \<le> 59
          then Some (MakeDay y (nat (month dl)) (nat (day dl)) * msPerDay
                     + (hour dl * 60 + minute dl) * 60000 - off * 60000)
          else None)"
proof -
  note Y = year_field [OF assms(1,2)]
  note Mo = pad_field [OF assms(3,4)]
  note D = pad_field [OF assms(5,6)]
  note H = pad_field [OF assms(7,8)]
  note Mi = pad_field [OF assms(9,10)]
  have y0: "0 \<le> y" using assms(1) by simp
  have "buildDate dl y =
      parseDate (toString y @ ''-'' @ pad (month dl) @ ''-'' @ pad (day dl) @ ''T''
                 @ pad (hour dl) @ '':'' @ pad (minute dl) @ '':00'' @ offset dl)"
    by (simp only: buildDate_def)
  also have "\<dots> =
     (case (Some (nat y), Some (nat (month dl)), Some (nat (day dl)), Some (nat (hour dl)),
            Some (nat (minute dl)), parseOffset (offset dl)) of
        (Some y, Some mo, Some d, Some h, Some mi, Some off') \<Rightarrow>
          if 1 \<le> mo \<and> mo \<le> 12 \<and> 1 \<le> d \<and> int d \<le> monthLengths (int y) ! (mo - 1)
             \<and> h \<le> 23 \<and> mi \<le> 59
          then Some (MakeDay (int y) mo d * msPerDay + (int h * 60 + int mi) * 60000
                     - off' * 60000)
          else None
      | _ \<Rightarrow> None)"
    by (simp only: parseDate_layout [OF Y(1) Mo(1) D(1) H(1) Mi(1)] Y(2) Mo(2) D(2) H(2) Mi(2))
  also have "\<dots> =
     (case parseOffset (offset dl) of
        None \<Rightarrow> None
      | Some off \<Rightarrow>
          if 1 \<le> month dl \<and> month dl \<le> 12 \<and> 1 \<le> day dl
             \<and> day dl \<le> monthLengths y ! (nat (month dl) - 1)
             \<and> hour dl \<le> 23 \<and> minute dl \<le> 59
          then Some (MakeDay y (nat (month dl)) (nat (day dl)) * msPerDay
                     + (hour dl * 60 + minute dl) * 60000 - off * 60000)
          else None)"
    using assms(3,5,7,9) y0 by (auto split: option.splits)
  finally show ?thesis .
qed

lemma monthLengths_ge_28:
  assumes "1 \<le> m" and "m \<le> 12"
  shows "28 \<le> monthLengths y ! (nat m - 1)"
proof -
  define k where "k = nat m - 1"
  have "k < 12" using assms by (simp add: k_def)
  then have "k = 0 \<or> k = 1 \<or> k = 2 \<or> k = 3 \<or> k = 4 \<or> k = 5 \<or> k = 6 \<or> k = 7
      \<or> k = 8 \<or> k = 9 \<or> k = 10 \<or> k = 11"
    by presburger
  then have "28 \<le> monthLengths y ! k"
    by (auto simp: monthLengths_def)
  then show ?thesis by (simp only: k_def)
qed

text \<open>
  Fields in the ranges of the data model, a day that every month has and an offset of the
  format give a valid deadline in every four-digit year.
\<close>

lemma validIn_fields:
  assumes "1000 \<le> y" and "y \<le> 9999"
    and "1 \<le> month dl" and "month dl \<le> 12" and "1 \<le> day dl" and "day dl \<le> 28"
    and "0 \<le> hour dl" and "hour dl \<le> 23" and "0 \<le> minute dl" and "minute dl \<le> 59"
    and "parseOffset (offset dl) \<noteq> None"
  shows "validIn dl y"
proof -
  obtain off where off: "parseOffset (offset dl) = Some off" using assms(11) by blast
  have d: "day dl \<le> monthLengths y ! (nat (month dl) - 1)"
    using monthLengths_ge_28 [OF assms(3,4), of y] assms(6) by linarith
  have "buildDate dl y \<noteq> None"
    using assms(3-10) d by (subst buildDate_fields [OF assms(1,2)]) (simp_all add: off)
  then show ?thesis unfolding validIn_def .
qed

lemma MakeDay_ge:
  "DayFromYear y \<le> MakeDay y m d" if "1 \<le> d"
proof -
  have "0 \<le> x" if "x \<in> set (take (m - 1) (monthLengths y))" for x
  proof -
    from that have "x \<in> set (monthLengths y)" by (rule in_set_takeD)
    then show ?thesis by (auto simp: monthLengths_def)
  qed
  then have "0 \<le> sum_list (take (m - 1) (monthLengths y))"
    by (rule sum_list_nonneg)
  then show ?thesis using that by (simp add: MakeDay_def)
qed


subsection \<open>Where the resolved instant is after the pivot\<close>

text \<open>
  For a deadline whose offset is at or behind UTC, with fields in the ranges of the data
  model and a pivot in a year from 1000 to 9998, the resolved instant is after the pivot
  whenever the deadline is valid in the pivot's year and the next: the instant built for
  the next year is no earlier than the start of that UTC year. The countdown of such an
  entry is never the terminal token.
\<close>

lemma getNextOccurrence_after_pivot:
  assumes "1000 \<le> getUTCFullYear pivot" and "getUTCFullYear pivot \<le> 9998"
    and "1 \<le> month dl" and "month dl \<le> 12" and "1 \<le> day dl" and "day dl \<le> 31"
    and "0 \<le> hour dl" and "hour dl \<le> 23" and "0 \<le> minute dl" and "minute dl \<le> 59"
    and "parseOffset (offset dl) = Some off" and "off \<le> 0"
    and "validAt dl pivot"
  shows "\<exists>t. getNextOccurrence dl pivot = Some t \<and> pivot < t"
proof -
  define Y where "Y = getUTCFullYear pivot"
  obtain c c' where c: "buildDate dl Y = Some c" and c': "buildDate dl (Y + 1) = Some c'"
    using assms(13) by (auto simp: validAt_def validIn_def Y_def)
  have "buildDate dl (Y + 1) =
     (case parseOffset (offset dl) of
        None \<Rightarrow> None
      | Some off \<Rightarrow>
          if 1 \<le> month dl \<and> month dl \<le> 12 \<and> 1 \<le> day dl
             \<and> day dl \<le> monthLengths (Y + 1) ! (nat (month dl) - 1)
             \<and> hour dl \<le> 23 \<and> minute dl \<le> 59
          then Some (MakeDay (Y + 1) (nat (month dl)) (nat (day dl)) * msPerDay
                     + (hour dl * 60 + minute dl) * 60000 - off * 60000)
          else None)"
    using assms(1-10) by (intro buildDate_fields) (simp_all add: Y_def)
  then have t: "c' = MakeDay (Y + 1) (nat (month dl)) (nat (day dl)) * msPerDay
                     + (hour dl * 60 + minute dl) * 60000 - off * 60000"
    using c' by (simp add: assms(11) split: if_splits)
  have "DayFromYear (Y + 1) \<le> MakeDay (Y + 1) (nat (month dl)) (nat (day dl))"
    using assms(5) by (intro MakeDay_ge) simp
  then have "DayFromYear (Y + 1) * msPerDay
      \<le> MakeDay (Y + 1) (nat (month dl)) (nat (day dl)) * msPerDay"
    by (simp add: msPerDay_def)
  moreover have "0 \<le> (hour dl * 60 + minute dl) * 60000"
    using assms(7,9) by simp
  moreover have "0 \<le> - (off * 60000)"
    using assms(12) by simp
  ultimately have "DayFromYear (Y + 1) * msPerDay \<le> c'"
    unfolding t by linarith
  moreover have "pivot < DayFromYear (Y + 1) * msPerDay"
    unfolding Y_def by (rule getUTCFullYear_bounds)
  ultimately have late: "pivot < c'" by linarith
  have "getNextOccurrence dl pivot = (if pivot < c then Some c else Some c')"
    using getNextOccurrence_candidate [of dl pivot c] c c' by (simp add: Y_def)
  with late show ?thesis by auto
qed

lemma countdown_of_dated_entry_not_Closed:
  assumes "1000 \<le> getUTCFullYear now" and "getUTCFullYear now \<le> 9998"
    and "1 \<le> month dl" and "month dl \<le> 12" and "1 \<le> day dl" and "day dl \<le> 31"
    and "0 \<le> hour dl" and "hour dl \<le> 23" and "0 \<le> minute dl" and "minute dl \<le> 59"
    and "parseOffset (offset dl) = Some off" and "off \<le> 0"
    and "validAt dl now"
  shows "formatCountdown (getNextOccurrence dl now) now \<noteq> ''Closed''"
proof -
  obtain t where t: "getNextOccurrence dl now = Some t" "now < t"
    using getNextOccurrence_after_pivot [OF assms] by blast
  then show ?thesis by (simp add: formatCountdown_Closed_iff)
qed

text \<open>The deadline of the samples, at the offset twelve hours behind UTC, is such a one.\<close>

lemma getNextOccurrence_after_pivot_example:
  "\<exists>t. getNextOccurrence (sampleDeadline 1 1 ''-12:00'') 1767223800000 = Some t
     \<and> 1767223800000 < t"
proof -
  have y: "getUTCFullYear 1767223800000 = 2025" by code_simp
  have o: "parseOffset (offset (sampleDeadline 1 1 ''-12:00'')) = Some (- 720)" by code_simp
  have v: "validAt (sampleDeadline 1 1 ''-12:00'') 1767223800000" by code_simp
  show ?thesis
    by (rule getNextOccurrence_after_pivot [OF _ _ _ _ _ _ _ _ _ _ o _ v])
       (simp_all add: y sampleDeadline_def)
qed

text \<open>
  The cell of a row without deadline: \<^verbatim>\<open>countdown\<close> is \<^verbatim>\<open>null\<close>, and a non-rolling entry
  then shows the terminal token as well.
\<close>

lemma renderRow_countdown_without_deadline:
  assumes "deadline c = None" and "\<not> isRolling c"
  shows "renderRow_countdown c now = ''Closed''"
  using assms by (simp add: renderRow_countdown_def)

end
